theory Spec2Isabelle
  imports Complex_Main "HOL-Library.Multiset"
begin

section \<open>Constants and data model (tetris\_merged.cpp)\<close>

text \<open>
  The board is \<^verbatim>\<open>array<array<int, BOARD_W>, BOARD_H> cells\<close>, a piece mask is
  \<^verbatim>\<open>Matrix4 = array<array<int,4>,4>\<close>. Both are modelled as lists of rows; the fixed
  sizes of the C++ arrays are the well-formedness predicates \<open>wf_board\<close> and
  \<open>wf_shape\<close>. Row and column indices are C++ \<^verbatim>\<open>int\<close>s and stay \<open>int\<close> here; an
  index is turned into a list position with \<open>nat\<close> only after the source's own range
  checks. All index arithmetic of the modelled functions stays within a few units of
  the board size, far away from the 32-bit limits.
\<close>

definition BOARD_W :: int where
  "BOARD_W = 10"

definition BOARD_H :: int where
  "BOARD_H = 20"

definition INT_MIN :: int where
  "INT_MIN = - 2147483648"

type_synonym Matrix4 = "int list list"

record Board =
  cells :: "int list list"

definition wf_board :: "Board \<Rightarrow> bool" where
  "wf_board b \<longleftrightarrow>
     length (cells b) = nat BOARD_H \<and> list_all (\<lambda>row. length row = nat BOARD_W) (cells b)"

definition wf_shape :: "Matrix4 \<Rightarrow> bool" where
  "wf_shape s \<longleftrightarrow> length s = 4 \<and> list_all (\<lambda>row. length row = 4) s"

subsection \<open>Tetromino masks: rotate90 and makeTetrominoes\<close>

record Tetromino =
  states :: "Matrix4 list"
  colorId :: int

definition rotate90 :: "Matrix4 \<Rightarrow> Matrix4" where
  "rotate90 m = map (\<lambda>i. map (\<lambda>j. m ! (3 - j) ! i) [0..<4]) [0..<4]"

definition I0 :: Matrix4 where
  "I0 = [[0,0,0,0], [1,1,1,1], [0,0,0,0], [0,0,0,0]]"

definition J0 :: Matrix4 where
  "J0 = [[1,0,0,0], [1,1,1,0], [0,0,0,0], [0,0,0,0]]"

definition L0 :: Matrix4 where
  "L0 = [[0,0,1,0], [1,1,1,0], [0,0,0,0], [0,0,0,0]]"

definition O0 :: Matrix4 where
  "O0 = [[0,1,1,0], [0,1,1,0], [0,0,0,0], [0,0,0,0]]"

definition S0 :: Matrix4 where
  "S0 = [[0,1,1,0], [1,1,0,0], [0,0,0,0], [0,0,0,0]]"

definition T0m :: Matrix4 where
  "T0m = [[0,1,0,0], [1,1,1,0], [0,0,0,0], [0,0,0,0]]"

definition Z0 :: Matrix4 where
  "Z0 = [[1,1,0,0], [0,1,1,0], [0,0,0,0], [0,0,0,0]]"

text \<open>
  The loop \<^verbatim>\<open>for (i = 0; i < 4; i++) if (i == 0) push_back(M0); else
  push_back(rotate90(states.back()))\<close> used for J, L and T.
\<close>

definition fourStates :: "Matrix4 \<Rightarrow> Matrix4 list" where
  "fourStates m0 = [m0, rotate90 m0, rotate90 (rotate90 m0), rotate90 (rotate90 (rotate90 m0))]"

definition makeTetrominoes :: "Tetromino list" where
  "makeTetrominoes =
     [ \<lparr> states = [I0, rotate90 I0], colorId = 1 \<rparr>,
       \<lparr> states = fourStates J0, colorId = 4 \<rparr>,
       \<lparr> states = fourStates L0, colorId = 5 \<rparr>,
       \<lparr> states = [O0], colorId = 2 \<rparr>,
       \<lparr> states = [S0, rotate90 S0], colorId = 6 \<rparr>,
       \<lparr> states = fourStates T0m, colorId = 3 \<rparr>,
       \<lparr> states = [Z0, rotate90 Z0], colorId = 7 \<rparr> ]"

subsection \<open>The board\<close>

text \<open>\<^verbatim>\<open>Board()\<close>: every row filled with 0.\<close>

definition emptyBoard :: Board where
  "emptyBoard = \<lparr> cells = replicate (nat BOARD_H) (replicate (nat BOARD_W) 0) \<rparr>"

text \<open>The order in which the nested \<^verbatim>\<open>for i\<close>, \<^verbatim>\<open>for j\<close> loops visit the 4x4 mask.\<close>

definition maskIndices :: "(nat \<times> nat) list" where
  "maskIndices = concat (map (\<lambda>i. map (\<lambda>j. (i, j)) [0..<4]) [0..<4])"

subsection \<open>Board::collides\<close>

text \<open>
  The loop body of \<^verbatim>\<open>collides\<close> with its two early returns; the recursion is the
  continuation of the loops over the remaining mask cells.
\<close>

fun collidesFrom :: "Board \<Rightarrow> Matrix4 \<Rightarrow> int \<Rightarrow> int \<Rightarrow> (nat \<times> nat) list \<Rightarrow> bool" where
  "collidesFrom b shape topR leftC [] = False"
| "collidesFrom b shape topR leftC ((i, j) # rest) =
     (if shape ! i ! j = 0 then collidesFrom b shape topR leftC rest
      else
        let r = topR + int i; c = leftC + int j in
        if c < 0 \<or> c \<ge> BOARD_W \<or> r \<ge> BOARD_H then True
        else if r \<ge> 0 \<and> cells b ! nat r ! nat c \<noteq> 0 then True
        else collidesFrom b shape topR leftC rest)"

definition collides :: "Board \<Rightarrow> Matrix4 \<Rightarrow> int \<Rightarrow> int \<Rightarrow> bool" where
  "collides b shape topR leftC = collidesFrom b shape topR leftC maskIndices"


subsection \<open>Board::placePiece\<close>

definition setCell :: "Board \<Rightarrow> int \<Rightarrow> int \<Rightarrow> int \<Rightarrow> Board" where
  "setCell b r c v = b\<lparr> cells := (cells b)[nat r := (cells b ! nat r)[nat c := v]] \<rparr>"

fun placeFrom :: "Board \<Rightarrow> Matrix4 \<Rightarrow> int \<Rightarrow> int \<Rightarrow> int \<Rightarrow> (nat \<times> nat) list \<Rightarrow> Board" where
  "placeFrom b shape topR leftC cid [] = b"
| "placeFrom b shape topR leftC cid ((i, j) # rest) =
     (if shape ! i ! j \<noteq> 0 then
        let r = topR + int i; c = leftC + int j in
        if r \<ge> 0 \<and> r < BOARD_H \<and> c \<ge> 0 \<and> c < BOARD_W
        then placeFrom (setCell b r c cid) shape topR leftC cid rest
        else placeFrom b shape topR leftC cid rest
      else placeFrom b shape topR leftC cid rest)"

definition placePiece :: "Board \<Rightarrow> Matrix4 \<Rightarrow> int \<Rightarrow> int \<Rightarrow> int \<Rightarrow> Board" where
  "placePiece b shape topR leftC cid = placeFrom b shape topR leftC cid maskIndices"

subsection \<open>Board::clearLines\<close>

text \<open>The inner scan \<^verbatim>\<open>for c: if (cells[r][c] == 0) { full = false; break; }\<close>.\<close>

definition rowFull :: "int list \<Rightarrow> bool" where
  "rowFull row = list_all (\<lambda>c. row ! c \<noteq> 0) [0..<nat BOARD_W]"

text \<open>
  \<^verbatim>\<open>for (int rr = r; rr > 0; --rr) cells[rr] = cells[rr-1];\<close> as a recursion on \<open>rr\<close>,
  followed by \<^verbatim>\<open>cells[0].fill(0)\<close>.
\<close>

fun shiftRows :: "nat \<Rightarrow> int list list \<Rightarrow> int list list" where
  "shiftRows 0 cs = cs"
| "shiftRows (Suc rr) cs = shiftRows rr (cs[Suc rr := cs ! rr])"

definition removeRow :: "Board \<Rightarrow> int \<Rightarrow> Board" where
  "removeRow b r = b\<lparr> cells := (shiftRows (nat r) (cells b))[0 := replicate (nat BOARD_W) 0] \<rparr>"

text \<open>
  The outer loop \<^verbatim>\<open>for (int r = BOARD_H - 1; r >= 0; --r)\<close>. On a full row the body
  executes \<^verbatim>\<open>r++\<close> and the loop header \<^verbatim>\<open>--r\<close>, so the next iteration looks at the
  same index again; this makes the recursion non-structural. The source's array always
  has \<open>BOARD_H\<close> rows; on a list the loop additionally stops at an index that is not a
  row of the list, which never happens for a well-formed board.
\<close>

function clearLoop :: "int \<Rightarrow> Board \<Rightarrow> int \<Rightarrow> Board \<times> int" where
  "clearLoop r b cleared =
     (if r \<ge> 0 \<and> nat r < length (cells b) then
        if rowFull (cells b ! nat r)
        then clearLoop ((r + 1) - 1) (removeRow b r) (cleared + 1)
        else clearLoop (r - 1) b cleared
      else (b, cleared))"
  by pat_completeness auto

lemma shiftRows_eq:
  "r < length cs \<Longrightarrow> shiftRows r cs = take 1 cs @ take r cs @ drop (Suc r) cs"
proof (induction r arbitrary: cs)
  case 0
  then show ?case by (cases cs) simp_all
next
  case (Suc r)
  let ?cs' = "cs[Suc r := cs ! r]"
  from Suc.prems have len: "r < length ?cs'" by simp
  have t1: "take 1 ?cs' = take 1 cs" by (cases cs) simp_all
  have t2: "take r ?cs' = take r cs" by simp
  have t3: "drop (Suc r) ?cs' = cs ! r # drop (Suc (Suc r)) cs"
    using Suc.prems by (simp add: drop_update_swap flip: Cons_nth_drop_Suc upd_conv_take_nth_drop)
  have t4: "take (Suc r) cs = take r cs @ [cs ! r]"
    using Suc.prems by (simp add: take_Suc_conv_app_nth)
  show ?case
    by (simp only: shiftRows.simps Suc.IH [OF len] t1 t2 t3 t4) simp
qed

lemma cells_removeRow:
  "0 \<le> r \<Longrightarrow> nat r < length (cells b) \<Longrightarrow>
   cells (removeRow b r) =
     replicate (nat BOARD_W) 0 # take (nat r) (cells b) @ drop (Suc (nat r)) (cells b)"
  by (cases "cells b") (simp_all add: removeRow_def shiftRows_eq)

lemma rowFull_nth: "rowFull row \<Longrightarrow> c < 10 \<Longrightarrow> row ! c \<noteq> 0"
  by (simp add: rowFull_def BOARD_W_def list_all_iff)

lemma not_rowFull_zero: "\<not> rowFull (replicate (nat BOARD_W) 0)"
  using rowFull_nth [of "replicate (nat BOARD_W) 0" 0] by (auto simp: BOARD_W_def)

definition fullAbove :: "int \<Rightarrow> Board \<Rightarrow> nat" where
  "fullAbove r b = length (filter rowFull (take (Suc (nat r)) (cells b)))"

lemma fullAbove_removeRow:
  assumes "0 \<le> r" "nat r < length (cells b)" "rowFull (cells b ! nat r)"
  shows "fullAbove r (removeRow b r) < fullAbove r b"
proof -
  have "take (Suc (nat r)) (cells b) = take (nat r) (cells b) @ [cells b ! nat r]"
    using assms(2) by (simp add: take_Suc_conv_app_nth)
  then show ?thesis
    using assms by (simp add: fullAbove_def cells_removeRow not_rowFull_zero)
qed

termination clearLoop
proof (relation "inv_image (less_than <*lex*> less_than) (\<lambda>(r, b, cleared). (fullAbove r b, nat (r + 1)))")
  show "wf (inv_image (less_than <*lex*> less_than) (\<lambda>(r, b, cleared). (fullAbove r b, nat (r + 1))))"
    by (intro wf_inv_image wf_lex_prod wf_less_than)
next
  fix r :: int and b :: Board and cleared :: int
  assume "0 \<le> r \<and> nat r < length (cells b)" "rowFull (cells b ! nat r)"
  then show "((r + 1 - 1, removeRow b r, cleared + 1), r, b, cleared)
        \<in> inv_image (less_than <*lex*> less_than) (\<lambda>(r, b, cleared). (fullAbove r b, nat (r + 1)))"
    using fullAbove_removeRow [of r b] by simp
next
  fix r :: int and b :: Board and cleared :: int
  assume a: "0 \<le> r \<and> nat r < length (cells b)" "\<not> rowFull (cells b ! nat r)"
  have "take (Suc (nat r)) (cells b) = take (nat r) (cells b) @ [cells b ! nat r]"
    using a(1) by (simp add: take_Suc_conv_app_nth)
  moreover have "r - 1 \<ge> 0 \<Longrightarrow> Suc (nat (r - 1)) = nat r" by simp
  moreover have "\<not> r - 1 \<ge> 0 \<Longrightarrow> r = 0" using a(1) by simp
  ultimately have "fullAbove (r - 1) b \<le> fullAbove r b"
    using a(2) by (cases "r - 1 \<ge> 0") (simp_all add: fullAbove_def)
  then show "((r - 1, b, cleared), r, b, cleared)
        \<in> inv_image (less_than <*lex*> less_than) (\<lambda>(r, b, cleared). (fullAbove r b, nat (r + 1)))"
    using a(1) by auto
qed

declare clearLoop.simps [simp del]

definition clearLines :: "Board \<Rightarrow> Board \<times> int" where
  "clearLines b = clearLoop (BOARD_H - 1) b 0"

subsection \<open>Board::dropPosition\<close>

text \<open>
  \<^verbatim>\<open>while (!collides(shape, topR + 1, leftC)) topR++;\<close> has no bound of its own: for a
  mask without an occupied cell no row collides and the scan never ends (in C++ the
  counter would eventually overflow, which is undefined behaviour). The loop is therefore
  a partial function; \<open>None\<close> stands for "does not return".
\<close>

partial_function (option) dropLoop :: "Board \<Rightarrow> Matrix4 \<Rightarrow> int \<Rightarrow> int \<Rightarrow> int option" where
  "dropLoop b shape leftC topR =
     (if \<not> collides b shape (topR + 1) leftC then dropLoop b shape leftC (topR + 1)
      else Some topR)"

declare dropLoop.simps [code]

definition dropPosition :: "Board \<Rightarrow> Matrix4 \<Rightarrow> int \<Rightarrow> int option" where
  "dropPosition b shape leftC =
     (case dropLoop b shape leftC (- 4) of
        None \<Rightarrow> None
      | Some topR \<Rightarrow> if collides b shape topR leftC then Some INT_MIN else Some topR)"

subsection \<open>Board features: columnHeight, aggregateHeight, bumpiness, holes\<close>

text \<open>
  \<^verbatim>\<open>for (int r = 0; r < BOARD_H; ++r) if (cells[r][c] != 0) return BOARD_H - r; return 0;\<close>
\<close>

fun columnHeightFrom :: "Board \<Rightarrow> int \<Rightarrow> nat list \<Rightarrow> int" where
  "columnHeightFrom b c [] = 0"
| "columnHeightFrom b c (r # rs) =
     (if cells b ! r ! nat c \<noteq> 0 then BOARD_H - int r else columnHeightFrom b c rs)"

definition columnHeight :: "Board \<Rightarrow> int \<Rightarrow> int" where
  "columnHeight b c = columnHeightFrom b c [0..<nat BOARD_H]"

definition aggregateHeight :: "Board \<Rightarrow> int" where
  "aggregateHeight b = foldl (\<lambda>s c. s + columnHeight b c) 0 [0..BOARD_W - 1]"

definition bumpiness :: "Board \<Rightarrow> int" where
  "bumpiness b = foldl (\<lambda>s c. s + \<bar>columnHeight b c - columnHeight b (c + 1)\<bar>) 0 [0..BOARD_W - 1 - 1]"

text \<open>The inner loop of \<^verbatim>\<open>holes\<close> over the rows of one column, with its flag \<^verbatim>\<open>blockFound\<close>.\<close>

fun holesRows :: "Board \<Rightarrow> int \<Rightarrow> nat list \<Rightarrow> bool \<Rightarrow> int \<Rightarrow> int" where
  "holesRows b c [] blockFound h = h"
| "holesRows b c (r # rs) blockFound h =
     (if cells b ! r ! nat c \<noteq> 0 then holesRows b c rs True h
      else if blockFound then holesRows b c rs blockFound (h + 1)
      else holesRows b c rs blockFound h)"

definition holes :: "Board \<Rightarrow> int" where
  "holes b = foldl (\<lambda>h c. holesRows b c [0..<nat BOARD_H] False h) 0 [0..BOARD_W - 1]"

text \<open>
  The reading of "distance from the top of the grid to the topmost occupied cell" used
  to compare the specification's sentence with \<open>columnHeight\<close>: the number of rows
  that lie above the topmost occupied cell of the column, and 0 for an empty column.
\<close>

definition topDistance :: "Board \<Rightarrow> int \<Rightarrow> int" where
  "topDistance b c =
     (case find (\<lambda>r. cells b ! r ! nat c \<noteq> 0) [0..<nat BOARD_H] of
        None \<Rightarrow> 0
      | Some r \<Rightarrow> int r)"

subsection \<open>Game::pieceCell and the classic piece table\<close>

definition TETROMINO_CLASSIC :: "int list list" where
  "TETROMINO_CLASSIC =
     [ [0,0,0,0, 1,1,1,1, 0,0,0,0, 0,0,0,0],
       [0,1,1,0, 0,1,1,0, 0,0,0,0, 0,0,0,0],
       [0,1,0,0, 1,1,1,0, 0,0,0,0, 0,0,0,0],
       [1,0,0,0, 1,1,1,0, 0,0,0,0, 0,0,0,0],
       [0,0,1,0, 1,1,1,0, 0,0,0,0, 0,0,0,0],
       [0,1,1,0, 1,1,0,0, 0,0,0,0, 0,0,0,0],
       [1,1,0,0, 0,1,1,0, 0,0,0,0, 0,0,0,0] ]"

text \<open>The C++ operator \<^verbatim>\<open>%\<close> on \<^verbatim>\<open>int\<close>: the remainder of the division that truncates towards zero.\<close>

definition cRem :: "int \<Rightarrow> int \<Rightarrow> int" where
  "cRem a b = sgn a * (\<bar>a\<bar> mod \<bar>b\<bar>)"

text \<open>
  The \<^verbatim>\<open>switch (rotation % 4)\<close> of \<^verbatim>\<open>pieceCell\<close>. \<^verbatim>\<open>idx\<close> is initialised to 0 and keeps
  that value when no case matches (a negative remainder).
\<close>

definition pieceIdx :: "int \<Rightarrow> int \<Rightarrow> int \<Rightarrow> int" where
  "pieceIdx rotation i j =
     (let k = cRem rotation 4 in
      if k = 0 then i * 4 + j
      else if k = 1 then (3 - j) * 4 + i
      else if k = 2 then (3 - i) * 4 + (3 - j)
      else if k = 3 then j * 4 + (3 - i)
      else 0)"

text \<open>The table lookup of \<^verbatim>\<open>pieceCell\<close> for an arbitrary flattened 4x4 mask.\<close>

definition maskCell :: "int list \<Rightarrow> int \<Rightarrow> int \<Rightarrow> int \<Rightarrow> int" where
  "maskCell flat rotation i j = flat ! nat (pieceIdx rotation i j)"

definition pieceCell :: "int \<Rightarrow> int \<Rightarrow> int \<Rightarrow> int \<Rightarrow> int" where
  "pieceCell type rotation i j = maskCell (TETROMINO_CLASSIC ! nat type) rotation i j"

text \<open>The 4x4 mask that \<^verbatim>\<open>pieceCell\<close> presents for a flattened base mask at rotation \<open>k\<close>.\<close>

definition transformMask :: "int list \<Rightarrow> nat \<Rightarrow> Matrix4" where
  "transformMask flat k =
     map (\<lambda>i. map (\<lambda>j. maskCell flat (int k) (int i) (int j)) [0..<4]) [0..<4]"

subsection \<open>The bag randomizer\<close>

text \<open>
  \<^verbatim>\<open>struct Bag { vector<int> bag; mt19937 rng; }\<close>. The generator state is kept abstract
  (type \<open>'g\<close>). \<^verbatim>\<open>std::shuffle\<close> is library code; it is a parameter \<open>shuffle\<close> that maps the
  vector and the generator state to the permuted vector and the next generator state.
\<close>

record 'g Bag =
  bag :: "int list"
  rng :: 'g

type_synonym 'g shuffler = "int list \<Rightarrow> 'g \<Rightarrow> int list \<times> 'g"

definition refill :: "'g shuffler \<Rightarrow> 'g Bag \<Rightarrow> 'g Bag" where
  "refill shuffle B =
     (let (xs, g') = shuffle [0, 1, 2, 3, 4, 5, 6] (rng B) in B\<lparr> bag := xs, rng := g' \<rparr>)"

text \<open>\<^verbatim>\<open>Bag()\<close>: seed the generator (the seed is read from the clock) and refill.\<close>

definition newBag :: "'g shuffler \<Rightarrow> 'g \<Rightarrow> 'g Bag" where
  "newBag shuffle seed = refill shuffle \<lparr> bag = [], rng = seed \<rparr>"

text \<open>\<^verbatim>\<open>int next()\<close>: refill when empty, then \<^verbatim>\<open>back()\<close> and \<^verbatim>\<open>pop_back()\<close>.\<close>

definition bagNext :: "'g shuffler \<Rightarrow> 'g Bag \<Rightarrow> int \<times> 'g Bag" where
  "bagNext shuffle B =
     (let B1 = (if bag B = [] then refill shuffle B else B);
          t = last (bag B1)
      in (t, B1\<lparr> bag := butlast (bag B1) \<rparr>))"

text \<open>\<open>n\<close> successive calls of \<^verbatim>\<open>next()\<close>: the drawn ids in order, and the bag afterwards.\<close>

fun drawN :: "'g shuffler \<Rightarrow> nat \<Rightarrow> 'g Bag \<Rightarrow> int list \<times> 'g Bag" where
  "drawN shuffle 0 B = ([], B)"
| "drawN shuffle (Suc n) B =
     (let (t, B') = bagNext shuffle B; (ts, B'') = drawN shuffle n B' in (t # ts, B''))"

text \<open>At the boundaries of the 7-draw blocks the bag is empty or holds all seven ids.\<close>

definition bagInv :: "'g Bag \<Rightarrow> bool" where
  "bagInv B \<longleftrightarrow> bag B = [] \<or> mset (bag B) = mset [0, 1, 2, 3, 4, 5, 6]"

text \<open>A shuffle used in examples: it rotates the vector by the generator state.\<close>

definition rotShuffle :: "nat shuffler" where
  "rotShuffle xs g = (rotate g xs, Suc g)"

subsection \<open>findBestMove\<close>

text \<open>
  \<^verbatim>\<open>struct MoveDecision { int rotationIndex; int leftC; double score; int lines; }\<close>.
  The type of the score is a parameter: the search only compares scores with \<^verbatim>\<open>>\<close>,
  and it is defined once for every linearly ordered score type and every way \<open>sc\<close> of
  computing the score from the four features. \<open>findBestMove\<close> below instantiates it
  with the source's weights, the \<^verbatim>\<open>double\<close> arithmetic being read as exact arithmetic on
  real numbers.
\<close>

record 's MoveDecision =
  rotationIndex :: int
  leftC :: int
  score :: 's
  lines :: int

definition W_LINES :: real where
  "W_LINES = 0.760666"

definition W_HOLE :: real where
  "W_HOLE = - 0.35663"

definition W_HEIGHT :: real where
  "W_HEIGHT = - 0.510066"

definition W_BUMPY :: real where
  "W_BUMPY = - 0.184483"

text \<open>
  \<^verbatim>\<open>score = 0.0; score += W_LINES * lines; score += W_HOLE * b2.holes(); score +=
  W_HEIGHT * b2.aggregateHeight(); score += W_BUMPY * b2.bumpiness();\<close>
\<close>

definition heuristicScore :: "int \<Rightarrow> int \<Rightarrow> int \<Rightarrow> int \<Rightarrow> real" where
  "heuristicScore lns hls agg bmp =
     0 + W_LINES * of_int lns + W_HOLE * of_int hls + W_HEIGHT * of_int agg + W_BUMPY * of_int bmp"

text \<open>
  The body of the inner loop for one offset \<open>left\<close> whose drop row is \<open>topR\<close>: clone the
  board, place, clear, score.
\<close>

definition candidateAt ::
  "(int \<Rightarrow> int \<Rightarrow> int \<Rightarrow> int \<Rightarrow> 's) \<Rightarrow> Board \<Rightarrow> Matrix4 \<Rightarrow> int \<Rightarrow> int \<Rightarrow> int \<Rightarrow> int \<Rightarrow> 's MoveDecision" where
  "candidateAt sc b shape cid rIdx left topR =
     (case clearLines (placePiece b shape topR left cid) of
        (b3, lns) \<Rightarrow>
          \<lparr> rotationIndex = rIdx, leftC = left,
            score = sc lns (holes b3) (aggregateHeight b3) (bumpiness b3), lines = lns \<rparr>)"

text \<open>\<^verbatim>\<open>if (score > best.score) best = {rIdx, left, score, lines};\<close>\<close>

definition keepBetter :: "('s::linorder) MoveDecision \<Rightarrow> 's MoveDecision \<Rightarrow> 's MoveDecision" where
  "keepBetter best cand = (if score cand > score best then cand else best)"

text \<open>
  The inner loop \<^verbatim>\<open>for (int left = -4; left <= BOARD_W; ++left)\<close> over the remaining
  offsets. A call of \<open>dropPosition\<close> that does not return makes the search not return.
\<close>

fun scanOffsets ::
  "(int \<Rightarrow> int \<Rightarrow> int \<Rightarrow> int \<Rightarrow> 's::linorder) \<Rightarrow> Board \<Rightarrow> Matrix4 \<Rightarrow> int \<Rightarrow> int \<Rightarrow> int list \<Rightarrow>
     's MoveDecision \<Rightarrow> 's MoveDecision option" where
  "scanOffsets sc b shape cid rIdx [] best = Some best"
| "scanOffsets sc b shape cid rIdx (left # rest) best =
     (case dropPosition b shape left of
        None \<Rightarrow> None
      | Some topR \<Rightarrow>
          if topR = INT_MIN then scanOffsets sc b shape cid rIdx rest best
          else
            scanOffsets sc b shape cid rIdx rest
              (keepBetter best (candidateAt sc b shape cid rIdx left topR)))"

text \<open>The outer loop \<^verbatim>\<open>for (int rIdx = 0; rIdx < (int)piece.states.size(); ++rIdx)\<close>.\<close>

fun scanRotations ::
  "(int \<Rightarrow> int \<Rightarrow> int \<Rightarrow> int \<Rightarrow> 's::linorder) \<Rightarrow> Board \<Rightarrow> Tetromino \<Rightarrow> nat list \<Rightarrow>
     's MoveDecision \<Rightarrow> 's MoveDecision option" where
  "scanRotations sc b piece [] best = Some best"
| "scanRotations sc b piece (rIdx # rest) best =
     (case scanOffsets sc b (states piece ! rIdx) (colorId piece) (int rIdx) [- 4..BOARD_W] best of
        None \<Rightarrow> None
      | Some best' \<Rightarrow> scanRotations sc b piece rest best')"

definition findBestMoveWith ::
  "(int \<Rightarrow> int \<Rightarrow> int \<Rightarrow> int \<Rightarrow> 's::linorder) \<Rightarrow> 's \<Rightarrow> Board \<Rightarrow> Tetromino list \<Rightarrow> int \<Rightarrow>
     's MoveDecision option" where
  "findBestMoveWith sc s0 b tets pieceType =
     (let piece = tets ! nat pieceType;
          best = \<lparr> rotationIndex = 0, leftC = 0, score = s0, lines = 0 \<rparr>
      in scanRotations sc b piece [0..<length (states piece)] best)"

definition findBestMove :: "Board \<Rightarrow> Tetromino list \<Rightarrow> int \<Rightarrow> real MoveDecision option" where
  "findBestMove = findBestMoveWith heuristicScore (- 1000000000)"

text \<open>
  The candidates in the order of the two loops (rotation-major, offsets ascending), the
  placeable ones among them, and the decision computed for a candidate; used to state
  what the search returns.
\<close>

definition allCandidates :: "Tetromino \<Rightarrow> (nat \<times> int) list" where
  "allCandidates piece =
     concat (map (\<lambda>rIdx. map (\<lambda>left. (rIdx, left)) [- 4..BOARD_W]) [0..<length (states piece)])"

definition placeable :: "Board \<Rightarrow> Tetromino \<Rightarrow> nat \<times> int \<Rightarrow> bool" where
  "placeable b piece = (\<lambda>(rIdx, left).
     case dropPosition b (states piece ! rIdx) left of
       None \<Rightarrow> False
     | Some topR \<Rightarrow> topR \<noteq> INT_MIN)"

definition decisionOf ::
  "(int \<Rightarrow> int \<Rightarrow> int \<Rightarrow> int \<Rightarrow> 's) \<Rightarrow> Board \<Rightarrow> Tetromino \<Rightarrow> nat \<times> int \<Rightarrow> 's MoveDecision" where
  "decisionOf sc b piece = (\<lambda>(rIdx, left).
     candidateAt sc b (states piece ! rIdx) (colorId piece) (int rIdx) left
       (the (dropPosition b (states piece ! rIdx) left)))"

subsection \<open>The game: pieces, rotation attempts, the AI tick\<close>

datatype GameMode = MANUAL | AI

record Piece =
  type :: int
  x :: int
  y :: int
  rotation :: int

text \<open>
  \<^verbatim>\<open>class Game\<close>. Timers are \<^verbatim>\<open>float\<close>s; they are modelled as real numbers. Score, lines
  and level are \<^verbatim>\<open>int\<close>s that no modelled property drives near the 32-bit limit.
\<close>

record 'g Game =
  board :: Board
  cur :: Piece
  bag :: "'g Bag"
  score :: int
  lines :: int
  level :: int
  gameOver :: bool
  paused :: bool
  tetrominoes :: "Tetromino list"
  mode :: GameMode
  gravityTimer :: real
  gravityDelay :: real
  inputDelay :: real
  inputTimer :: real
  leftHeld :: bool
  rightHeld :: bool
  downHeld :: bool
  aiTimer :: real
  aiCooldown :: real

fun collidesPieceFrom :: "Board \<Rightarrow> int \<Rightarrow> int \<Rightarrow> int \<Rightarrow> int \<Rightarrow> (nat \<times> nat) list \<Rightarrow> bool" where
  "collidesPieceFrom b px py t rot [] = False"
| "collidesPieceFrom b px py t rot ((i, j) # rest) =
     (if pieceCell t rot (int i) (int j) \<noteq> 0 then
        let bx = px + int j; by = py + int i in
        if bx < 0 \<or> bx \<ge> BOARD_W \<or> by \<ge> BOARD_H then True
        else if by \<ge> 0 \<and> cells b ! nat by ! nat bx \<noteq> 0 then True
        else collidesPieceFrom b px py t rot rest
      else collidesPieceFrom b px py t rot rest)"

definition collidesPiece :: "'g Game \<Rightarrow> int \<Rightarrow> int \<Rightarrow> int \<Rightarrow> int \<Rightarrow> bool" where
  "collidesPiece g px py t rot = collidesPieceFrom (board g) px py t rot maskIndices"

definition spawnPiece :: "'g shuffler \<Rightarrow> 'g Game \<Rightarrow> 'g Game" where
  "spawnPiece shuffle g =
     (let (t, bag') = bagNext shuffle (bag g);
          g1 = g\<lparr> bag := bag',
                  cur := \<lparr> type = t, x = (BOARD_W div 2) - 2, y = 0, rotation = 0 \<rparr> \<rparr>
      in if collidesPiece g1 (x (cur g1)) (y (cur g1)) (type (cur g1)) (rotation (cur g1))
         then g1\<lparr> gameOver := True \<rparr> else g1)"

text \<open>\<^verbatim>\<open>Game(GameMode gm)\<close> with the member initialisers of the class.\<close>

definition newGame :: "'g shuffler \<Rightarrow> 'g \<Rightarrow> GameMode \<Rightarrow> 'g Game" where
  "newGame shuffle seed gm =
     spawnPiece shuffle
       \<lparr> board = emptyBoard, cur = \<lparr> type = 0, x = 0, y = 0, rotation = 0 \<rparr>,
         bag = newBag shuffle seed, score = 0, lines = 0, level = 1,
         gameOver = False, paused = False, tetrominoes = makeTetrominoes, mode = gm,
         gravityTimer = 0, gravityDelay = 0.8, inputDelay = 0.08, inputTimer = 0,
         leftHeld = False, rightHeld = False, downHeld = False,
         aiTimer = 0, aiCooldown = 1.08 \<rparr>"

text \<open>
  The two rotation blocks of \<^verbatim>\<open>updateManual\<close> (keys UP/X with \<open>d = 1\<close>, key Z with
  \<open>d = 3\<close>): \<^verbatim>\<open>newRot = (cur.rotation + d) % 4\<close>, then the three placements in turn.
\<close>

definition tryRotate :: "int \<Rightarrow> 'g Game \<Rightarrow> 'g Game" where
  "tryRotate d g =
     (let newRot = cRem (rotation (cur g) + d) 4 in
      if \<not> collidesPiece g (x (cur g)) (y (cur g)) (type (cur g)) newRot
      then g\<lparr> cur := (cur g)\<lparr> rotation := newRot \<rparr> \<rparr>
      else if \<not> collidesPiece g (x (cur g) - 1) (y (cur g)) (type (cur g)) newRot
      then g\<lparr> cur := (cur g)\<lparr> x := x (cur g) - 1, rotation := newRot \<rparr> \<rparr>
      else if \<not> collidesPiece g (x (cur g) + 1) (y (cur g)) (type (cur g)) newRot
      then g\<lparr> cur := (cur g)\<lparr> x := x (cur g) + 1, rotation := newRot \<rparr> \<rparr>
      else g)"

text \<open>
  \<^verbatim>\<open>updateAI(float dt)\<close>. The result is \<open>None\<close> when a call of \<open>dropPosition\<close> inside does
  not return.
\<close>

definition updateAI :: "'g shuffler \<Rightarrow> real \<Rightarrow> 'g Game \<Rightarrow> 'g Game option" where
  "updateAI shuffle dt g =
     (if gameOver g then Some g
      else
        let g1 = g\<lparr> aiTimer := aiTimer g + dt \<rparr> in
        if aiTimer g1 \<ge> aiCooldown g1 then
          let g2 = g1\<lparr> aiTimer := 0 \<rparr>;
              piece = tetrominoes g2 ! nat (type (cur g2))
          in case findBestMove (board g2) (tetrominoes g2) (type (cur g2)) of
               None \<Rightarrow> None
             | Some move \<Rightarrow>
                 if MoveDecision.score move < - 100000000 then Some (g2\<lparr> gameOver := True \<rparr>)
                 else
                   let shape = states piece ! nat (rotationIndex move) in
                   case dropPosition (board g2) shape (leftC move) of
                     None \<Rightarrow> None
                   | Some topR \<Rightarrow>
                       if topR = INT_MIN then Some (g2\<lparr> gameOver := True \<rparr>)
                       else
                         let (b', cleared) =
                               clearLines (placePiece (board g2) shape topR (leftC move) (colorId piece));
                             g3 = g2\<lparr> board := b' \<rparr>;
                             g4 = (if cleared > 0
                                   then g3\<lparr> lines := lines g3 + cleared,
                                           score := score g3 + 100 * 2 ^ nat (cleared - 1),
                                           level := 1 + (lines g3 + cleared) div 10 \<rparr>
                                   else g3)
                         in Some (spawnPiece shuffle g4)
        else Some g1)"

text \<open>
  The part of \<^verbatim>\<open>main\<close>'s PLAYING branch that concerns pausing:
  \<^verbatim>\<open>if (IsKeyPressed(KEY_P) && game->mode == MANUAL) game->paused = !game->paused;\<close>
  and, for a game in AI mode, the following call \<^verbatim>\<open>game->updateAI(dt)\<close>.
\<close>

definition pauseKey :: "bool \<Rightarrow> 'g Game \<Rightarrow> 'g Game" where
  "pauseKey keyP g = (if keyP \<and> mode g = MANUAL then g\<lparr> paused := \<not> paused g \<rparr> else g)"

definition playingFrameAI :: "'g shuffler \<Rightarrow> bool \<Rightarrow> real \<Rightarrow> 'g Game \<Rightarrow> 'g Game option" where
  "playingFrameAI shuffle keyP dt g = updateAI shuffle dt (pauseKey keyP g)"

subsection \<open>Concrete boards used in examples\<close>

text \<open>A board whose columns 4 and 5 are occupied in every row.\<close>

definition towerBoard :: Board where
  "towerBoard = \<lparr> cells = replicate 20 [0,0,0,0,7,7,0,0,0,0] \<rparr>"

text \<open>Rows 18 and 19 full, row 17 partly filled, the rest empty.\<close>

definition twoFullBoard :: Board where
  "twoFullBoard = \<lparr> cells = replicate 17 (replicate 10 0)
      @ [[1,0,0,0,0,0,0,0,0,2], replicate 10 3, replicate 10 4] \<rparr>"

text \<open>The mask without any occupied cell.\<close>

definition zeroMask :: Matrix4 where
  "zeroMask = replicate 4 (replicate 4 0)"

text \<open>A single occupied cell, in the bottom row of column 0.\<close>

definition bottomCellBoard :: Board where
  "bottomCellBoard = \<lparr> cells = replicate 19 (replicate 10 0) @ [[3,0,0,0,0,0,0,0,0,0]] \<rparr>"

text \<open>Every column occupied in every row, except column 5.\<close>

definition wellBoard :: Board where
  "wellBoard = \<lparr> cells = replicate 20 [1,1,1,1,1,0,1,1,1,1] \<rparr>"

text \<open>
  Games used in examples: an I piece standing upright (rotation 1) in column 5, at the
  top of the field. \<open>wellGame\<close> is a manual game on \<open>wellBoard\<close>, where the piece stands
  inside the well; \<open>pausedGame\<close> is an AI game on the empty board with the pause flag set.
\<close>

definition baseGame :: "nat Game" where
  "baseGame =
     \<lparr> board = emptyBoard, cur = \<lparr> type = 0, x = 3, y = 0, rotation = 1 \<rparr>,
       bag = \<lparr> Bag.bag = [4, 2, 6], rng = 0 \<rparr>, score = 0, lines = 0, level = 1,
       gameOver = False, paused = False, tetrominoes = makeTetrominoes, mode = AI,
       gravityTimer = 0, gravityDelay = 0.8, inputDelay = 0.08, inputTimer = 0,
       leftHeld = False, rightHeld = False, downHeld = False,
       aiTimer = 0, aiCooldown = 1.08 \<rparr>"

definition wellGame :: "nat Game" where
  "wellGame = baseGame\<lparr> board := wellBoard, mode := MANUAL \<rparr>"

definition pausedGame :: "nat Game" where
  "pausedGame = baseGame\<lparr> paused := True \<rparr>"

section \<open>Properties\<close>

lemma all_less_4: "(\<forall>i<4. P i) \<longleftrightarrow> P (0::nat) \<and> P 1 \<and> P 2 \<and> P 3"
proof -
  have "{..<4::nat} = {0, 1, 2, 3}" by auto
  then have "(\<forall>i\<in>{..<4}. P i) \<longleftrightarrow> P (0::nat) \<and> P 1 \<and> P 2 \<and> P 3" by simp
  then show ?thesis by (simp add: Ball_def)
qed

lemma ex_less_4: "(\<exists>i<4. P i) \<longleftrightarrow> P (0::nat) \<or> P 1 \<or> P 2 \<or> P 3"
  using all_less_4 [of "\<lambda>i. \<not> P i"] by blast

subsection \<open>Collision test\<close>

lemma set_maskIndices: "set maskIndices = {(i, j). i < 4 \<and> j < 4}"
  by (auto simp: maskIndices_def)

lemma collidesFrom_iff:
  "collidesFrom b shape topR left ps \<longleftrightarrow>
     (\<exists>(i, j) \<in> set ps. shape ! i ! j \<noteq> 0 \<and>
        (left + int j < 0 \<or> BOARD_W \<le> left + int j \<or> BOARD_H \<le> topR + int i \<or>
         (0 \<le> topR + int i \<and> cells b ! nat (topR + int i) ! nat (left + int j) \<noteq> 0)))"
  by (induction ps) (auto simp: Let_def split: if_splits)

lemma collides_iff:
  "collides b shape topR left \<longleftrightarrow>
     (\<exists>i<4. \<exists>j<4. shape ! i ! j \<noteq> 0 \<and>
        (left + int j < 0 \<or> 10 \<le> left + int j \<or> 20 \<le> topR + int i \<or>
         (0 \<le> topR + int i \<and> cells b ! nat (topR + int i) ! nat (left + int j) \<noteq> 0)))"
  unfolding collides_def collidesFrom_iff set_maskIndices
  by (auto simp: BOARD_W_def BOARD_H_def)

text \<open>
  Claim C4. \<open>collides\<close> is true exactly when some occupied mask cell lies in a column
  outside \<open>[0, 10)\<close>, or in a row \<open>\<ge> 20\<close>, or on a board cell (row \<open>\<ge> 0\<close>, inside the
  grid) that is already occupied. Mask cells mapped to negative rows collide only
  through the column check: when every occupied mask cell lies above row 0, the
  result is decided by the horizontal bounds alone, whatever the board holds.
\<close>

theorem collides_characterisation:
  "(collides b shape topR left \<longleftrightarrow>
      (\<exists>i<4. \<exists>j<4. shape ! i ! j \<noteq> 0 \<and>
         (left + int j < 0 \<or> 10 \<le> left + int j \<or> 20 \<le> topR + int i \<or>
          (0 \<le> topR + int i \<and> topR + int i < 20 \<and> 0 \<le> left + int j \<and> left + int j < 10 \<and>
           cells b ! nat (topR + int i) ! nat (left + int j) \<noteq> 0))))
   \<and>
   ((\<forall>i<4. \<forall>j<4. shape ! i ! j \<noteq> 0 \<longrightarrow> topR + int i < 0) \<longrightarrow>
      (collides b shape topR left \<longleftrightarrow>
        (\<exists>i<4. \<exists>j<4. shape ! i ! j \<noteq> 0 \<and> (left + int j < 0 \<or> 10 \<le> left + int j))))"
proof (intro conjI impI)
  show "collides b shape topR left \<longleftrightarrow>
      (\<exists>i<4. \<exists>j<4. shape ! i ! j \<noteq> 0 \<and>
         (left + int j < 0 \<or> 10 \<le> left + int j \<or> 20 \<le> topR + int i \<or>
          (0 \<le> topR + int i \<and> topR + int i < 20 \<and> 0 \<le> left + int j \<and> left + int j < 10 \<and>
           cells b ! nat (topR + int i) ! nat (left + int j) \<noteq> 0)))"
    unfolding collides_iff by (intro iff_exI conj_cong refl) linarith
next
  assume above: "\<forall>i<4. \<forall>j<4. shape ! i ! j \<noteq> 0 \<longrightarrow> topR + int i < 0"
  show "collides b shape topR left \<longleftrightarrow>
        (\<exists>i<4. \<exists>j<4. shape ! i ! j \<noteq> 0 \<and> (left + int j < 0 \<or> 10 \<le> left + int j))"
    unfolding collides_iff
  proof (intro iff_exI conj_cong refl)
    fix i j :: nat
    assume "i < 4" "j < 4" "shape ! i ! j \<noteq> 0"
    with above have "topR + int i < 0" by blast
    then show "(left + int j < 0 \<or> 10 \<le> left + int j \<or> 20 \<le> topR + int i \<or>
        0 \<le> topR + int i \<and> cells b ! nat (topR + int i) ! nat (left + int j) \<noteq> 0)
      \<longleftrightarrow> (left + int j < 0 \<or> 10 \<le> left + int j)"
      by linarith
  qed
qed

theorem collides_characterisation_witness:
  "\<not> collides towerBoard O0 (- 2) 4"
proof -
  have above: "\<forall>i<4. \<forall>j<4. O0 ! i ! j \<noteq> 0 \<longrightarrow> - 2 + int i < 0"
    by (simp add: all_less_4 O0_def)
  have "\<not> (\<exists>i<4. \<exists>j<4. O0 ! i ! j \<noteq> 0 \<and> (4 + int j < 0 \<or> 10 \<le> 4 + int j))"
    by (simp add: ex_less_4 O0_def)
  with above show ?thesis
    using collides_characterisation [of towerBoard O0 "- 2" 4] by blast
qed

subsection \<open>Line clearing\<close>

lemma clearLoop_eq:
  "- 1 \<le> r \<Longrightarrow> nat (r + 1) \<le> length (cells b) \<Longrightarrow>
   clearLoop r b cleared =
     (b\<lparr> cells := replicate (length (filter rowFull (take (nat (r + 1)) (cells b)))) (replicate (nat BOARD_W) 0)
                    @ filter (\<lambda>row. \<not> rowFull row) (take (nat (r + 1)) (cells b))
                    @ drop (nat (r + 1)) (cells b) \<rparr>,
      cleared + int (length (filter rowFull (take (nat (r + 1)) (cells b)))))"
proof (induction r b cleared rule: clearLoop.induct)
  case (1 r b cleared)
  let ?cs = "cells b"
  let ?z = "replicate (nat BOARD_W) (0::int)"
  show ?case
  proof (cases "r \<ge> 0")
    case False
    with "1.prems" have "r = - 1" by simp
    then show ?thesis by (subst clearLoop.simps) simp
  next
    case True
    with "1.prems" have inr: "nat r < length ?cs" by simp
    have nr: "nat (r + 1) = Suc (nat r)" using True by simp
    have tk: "take (Suc (nat r)) ?cs = take (nat r) ?cs @ [?cs ! nat r]"
      using inr by (simp add: take_Suc_conv_app_nth)
    show ?thesis
    proof (cases "rowFull (?cs ! nat r)")
      case full: True
      let ?b' = "removeRow b r"
      have cs': "cells ?b' = ?z # take (nat r) ?cs @ drop (Suc (nat r)) ?cs"
        using True inr by (rule cells_removeRow)
      have len': "nat (r + 1) \<le> length (cells ?b')"
        using inr by (simp add: cs' nr)
      have tk': "take (Suc (nat r)) (cells ?b') = ?z # take (nat r) ?cs"
        using inr by (simp add: cs')
      have dr': "drop (Suc (nat r)) (cells ?b') = drop (Suc (nat r)) ?cs"
        using inr by (simp add: cs')
      have b'': "\<And>x. ?b'\<lparr>cells := x\<rparr> = b\<lparr>cells := x\<rparr>"
        by (simp add: removeRow_def)
      have IH: "clearLoop r ?b' (cleared + 1) =
         (b\<lparr> cells := replicate (length (filter rowFull (take (nat r) ?cs))) ?z
                    @ (?z # filter (\<lambda>row. \<not> rowFull row) (take (nat r) ?cs))
                    @ drop (Suc (nat r)) ?cs \<rparr>,
          cleared + 1 + int (length (filter rowFull (take (nat r) ?cs))))"
        using "1.IH"(1) full True inr len'
        by (simp add: nr tk' dr' b'' not_rowFull_zero)
      have step: "clearLoop r b cleared = clearLoop r ?b' (cleared + 1)"
        using True inr full by (subst clearLoop.simps) simp
      have rep: "\<And>k xs. replicate k ?z @ (?z # xs) = replicate (Suc k) ?z @ xs"
        by (simp add: replicate_append_same)
      show ?thesis
        unfolding step IH nr tk using full by (simp add: rep del: replicate_Suc)
    next
      case nfull: False
      have step: "clearLoop r b cleared = clearLoop (r - 1) b cleared"
        using True inr nfull by (subst clearLoop.simps) simp
      have n1: "nat (r - 1 + 1) = nat r" by simp
      have IH: "clearLoop (r - 1) b cleared =
         (b\<lparr> cells := replicate (length (filter rowFull (take (nat r) ?cs))) ?z
                    @ filter (\<lambda>row. \<not> rowFull row) (take (nat r) ?cs)
                    @ drop (nat r) ?cs \<rparr>,
          cleared + int (length (filter rowFull (take (nat r) ?cs))))"
        using "1.IH"(2) nfull True inr by (simp add: n1)
      have dr: "drop (nat r) ?cs = ?cs ! nat r # drop (Suc (nat r)) ?cs"
        using inr by (simp add: Cons_nth_drop_Suc)
      show ?thesis
        unfolding step IH nr tk using nfull by (simp add: dr)
    qed
  qed
qed

lemma clearLines_eq:
  assumes "wf_board b"
  shows "clearLines b =
     (b\<lparr> cells := replicate (length (filter rowFull (cells b))) (replicate (nat BOARD_W) 0)
                    @ filter (\<lambda>row. \<not> rowFull row) (cells b) \<rparr>,
      int (length (filter rowFull (cells b))))"
proof -
  have len: "length (cells b) = 20" using assms by (simp add: wf_board_def BOARD_H_def)
  show ?thesis
    unfolding clearLines_def
    by (subst clearLoop_eq) (simp_all add: len BOARD_H_def)
qed

lemma filter_none: "(\<And>x. x \<in> set xs \<Longrightarrow> \<not> P x) \<Longrightarrow> filter P xs = []"
  by (induction xs) auto

lemma filter_all: "(\<And>x. x \<in> set xs \<Longrightarrow> P x) \<Longrightarrow> filter P xs = xs"
  by (induction xs) auto

lemma split_two_rows:
  assumes "R1 < R2" "R2 < length cs"
  shows "cs = take R1 cs @ [cs ! R1] @ take (R2 - Suc R1) (drop (Suc R1) cs) @ [cs ! R2] @ drop (Suc R2) cs"
proof -
  have a: "cs = take R1 cs @ cs ! R1 # drop (Suc R1) cs"
    using assms by (simp add: id_take_nth_drop [symmetric])
  let ?d = "drop (Suc R1) cs"
  have l: "R2 - Suc R1 < length ?d" using assms by simp
  have "?d = take (R2 - Suc R1) ?d @ ?d ! (R2 - Suc R1) # drop (Suc (R2 - Suc R1)) ?d"
    using l by (rule id_take_nth_drop)
  moreover have "?d ! (R2 - Suc R1) = cs ! R2" using assms by simp
  moreover have "drop (Suc (R2 - Suc R1)) ?d = drop (Suc R2) cs" using assms by simp
  ultimately have "?d = take (R2 - Suc R1) ?d @ cs ! R2 # drop (Suc R2) cs" by simp
  with a show ?thesis by simp
qed

lemma two_full_rows:
  assumes "wf_board b" "R1 < R2" "R2 < 20"
    and "rowFull (cells b ! R1)" "rowFull (cells b ! R2)"
    and "\<And>r. r < 20 \<Longrightarrow> r \<noteq> R1 \<Longrightarrow> r \<noteq> R2 \<Longrightarrow> \<not> rowFull (cells b ! r)"
  shows "clearLines b =
     (b\<lparr> cells := [replicate 10 0, replicate 10 0] @ take R1 (cells b)
                    @ take (R2 - Suc R1) (drop (Suc R1) (cells b)) @ drop (Suc R2) (cells b) \<rparr>, 2)"
proof -
  let ?cs = "cells b"
  let ?A = "take R1 ?cs" and ?B = "take (R2 - Suc R1) (drop (Suc R1) ?cs)" and ?C = "drop (Suc R2) ?cs"
  have len: "length ?cs = 20" using assms(1) by (simp add: wf_board_def BOARD_H_def)
  have sp: "?cs = ?A @ [?cs ! R1] @ ?B @ [?cs ! R2] @ ?C"
    using assms(2,3) len by (intro split_two_rows) simp_all
  have A: "\<And>x. x \<in> set ?A \<Longrightarrow> \<not> rowFull x"
    using assms(2,3,6) len by (auto simp: in_set_conv_nth)
  have B: "\<And>x. x \<in> set ?B \<Longrightarrow> \<not> rowFull x"
    using assms(2,3,6) len by (auto simp: in_set_conv_nth)
  have C: "\<And>x. x \<in> set ?C \<Longrightarrow> \<not> rowFull x"
    using assms(2,3,6) len by (auto simp: in_set_conv_nth)
  have fA: "filter rowFull ?A = []" "filter rowFull ?B = []" "filter rowFull ?C = []"
    by (rule filter_none, erule A, rule filter_none, erule B, rule filter_none, erule C)
  have nA: "filter (\<lambda>row. \<not> rowFull row) ?A = ?A" "filter (\<lambda>row. \<not> rowFull row) ?B = ?B"
     "filter (\<lambda>row. \<not> rowFull row) ?C = ?C"
    by (rule filter_all, erule A, rule filter_all, erule B, rule filter_all, erule C)
  have f: "filter rowFull ?cs = [?cs ! R1, ?cs ! R2]"
    by (subst sp) (simp add: fA assms(4,5))
  have n: "filter (\<lambda>row. \<not> rowFull row) ?cs = ?A @ ?B @ ?C"
    by (subst sp) (simp add: nA assms(4,5))
  show ?thesis
    by (simp add: clearLines_eq [OF assms(1)] f n BOARD_W_def)
qed

text \<open>
  Claim C2. A row is full exactly when its 10 cells are all non-zero. The loop, on a
  full row \<open>r\<close>, counts it, replaces the board by \<open>removeRow b r\<close> (rows above \<open>r\<close> move down
  by one, row 0 becomes empty) and looks at index \<open>r\<close> again; on any other row it moves
  up. Hence \<open>clearLines\<close> returns the number of full rows and leaves that many empty
  rows on top of the remaining rows in their order. In particular, with exactly two full
  rows \<open>R1 < R2\<close> it returns 2, the rows above \<open>R1\<close> move down by 2, the rows between
  \<open>R1\<close> and \<open>R2\<close> move down by 1, the rows below \<open>R2\<close> stay, and rows 0 and 1 are empty.
\<close>

theorem clearLines_correct:
  assumes wf: "wf_board b"
  shows "(\<forall>row. rowFull row \<longleftrightarrow> (\<forall>c<10. row ! c \<noteq> 0))
    \<and> (\<forall>r n. 0 \<le> r \<and> r < 20 \<and> rowFull (cells b ! nat r) \<longrightarrow>
          clearLoop r b n = clearLoop r (removeRow b r) (n + 1)
          \<and> cells (removeRow b r) = replicate 10 0 # take (nat r) (cells b) @ drop (Suc (nat r)) (cells b))
    \<and> (\<forall>r n. 0 \<le> r \<and> r < 20 \<and> \<not> rowFull (cells b ! nat r) \<longrightarrow>
          clearLoop r b n = clearLoop (r - 1) b n)
    \<and> clearLines b =
         (b\<lparr> cells := replicate (length (filter rowFull (cells b))) (replicate 10 0)
                        @ filter (\<lambda>row. \<not> rowFull row) (cells b) \<rparr>,
          int (length (filter rowFull (cells b))))
    \<and> (\<forall>R1 R2. R1 < R2 \<and> R2 < 20 \<and> rowFull (cells b ! R1) \<and> rowFull (cells b ! R2)
          \<and> (\<forall>r<20. r \<noteq> R1 \<and> r \<noteq> R2 \<longrightarrow> \<not> rowFull (cells b ! r)) \<longrightarrow>
          clearLines b =
            (b\<lparr> cells := [replicate 10 0, replicate 10 0] @ take R1 (cells b)
                 @ take (R2 - Suc R1) (drop (Suc R1) (cells b)) @ drop (Suc R2) (cells b) \<rparr>, 2)
          \<and> wf_board (fst (clearLines b))
          \<and> (\<forall>r<20. cells (fst (clearLines b)) ! r =
                (if r < 2 then replicate 10 0
                 else if r < R1 + 2 then cells b ! (r - 2)
                 else if r \<le> R2 then cells b ! (r - 1)
                 else cells b ! r)))"
proof -
  have len: "length (cells b) = 20" using wf by (simp add: wf_board_def BOARD_H_def)
  have rows: "\<And>r. r < 20 \<Longrightarrow> length (cells b ! r) = 10"
    using wf by (simp add: wf_board_def BOARD_H_def BOARD_W_def list_all_length)
  have p1: "\<forall>row. rowFull row \<longleftrightarrow> (\<forall>c<10. row ! c \<noteq> 0)"
    by (simp add: rowFull_def BOARD_W_def list_all_iff Ball_def)
  have p2: "\<forall>r n. 0 \<le> r \<and> r < 20 \<and> rowFull (cells b ! nat r) \<longrightarrow>
          clearLoop r b n = clearLoop r (removeRow b r) (n + 1)
          \<and> cells (removeRow b r) = replicate 10 0 # take (nat r) (cells b) @ drop (Suc (nat r)) (cells b)"
  proof (intro allI impI conjI)
    fix r n assume a: "0 \<le> r \<and> r < 20 \<and> rowFull (cells b ! nat r)"
    have nr: "nat r < 20" using a by linarith
    show "clearLoop r b n = clearLoop r (removeRow b r) (n + 1)"
      using a len nr by (subst clearLoop.simps) simp
    show "cells (removeRow b r) = replicate 10 0 # take (nat r) (cells b) @ drop (Suc (nat r)) (cells b)"
      using a len nr cells_removeRow [of r b] by (simp add: BOARD_W_def)
  qed
  have p3: "\<forall>r n. 0 \<le> r \<and> r < 20 \<and> \<not> rowFull (cells b ! nat r) \<longrightarrow>
          clearLoop r b n = clearLoop (r - 1) b n"
  proof (intro allI impI)
    fix r n assume a: "0 \<le> r \<and> r < 20 \<and> \<not> rowFull (cells b ! nat r)"
    have nr: "nat r < 20" using a by linarith
    show "clearLoop r b n = clearLoop (r - 1) b n"
      using a len nr by (subst clearLoop.simps) simp
  qed
  have p4: "clearLines b =
         (b\<lparr> cells := replicate (length (filter rowFull (cells b))) (replicate 10 0)
                        @ filter (\<lambda>row. \<not> rowFull row) (cells b) \<rparr>,
          int (length (filter rowFull (cells b))))"
    using clearLines_eq [OF wf] by (simp add: BOARD_W_def)
  have p5: "\<forall>R1 R2. R1 < R2 \<and> R2 < 20 \<and> rowFull (cells b ! R1) \<and> rowFull (cells b ! R2)
          \<and> (\<forall>r<20. r \<noteq> R1 \<and> r \<noteq> R2 \<longrightarrow> \<not> rowFull (cells b ! r)) \<longrightarrow>
          clearLines b =
            (b\<lparr> cells := [replicate 10 0, replicate 10 0] @ take R1 (cells b)
                 @ take (R2 - Suc R1) (drop (Suc R1) (cells b)) @ drop (Suc R2) (cells b) \<rparr>, 2)
          \<and> wf_board (fst (clearLines b))
          \<and> (\<forall>r<20. cells (fst (clearLines b)) ! r =
                (if r < 2 then replicate 10 0
                 else if r < R1 + 2 then cells b ! (r - 2)
                 else if r \<le> R2 then cells b ! (r - 1)
                 else cells b ! r))"
  proof (intro allI impI)
    fix R1 R2
    assume a: "R1 < R2 \<and> R2 < 20 \<and> rowFull (cells b ! R1) \<and> rowFull (cells b ! R2)
          \<and> (\<forall>r<20. r \<noteq> R1 \<and> r \<noteq> R2 \<longrightarrow> \<not> rowFull (cells b ! r))"
    then have R: "R1 < R2" "R2 < 20" by simp_all
    have eq: "clearLines b =
            (b\<lparr> cells := [replicate 10 0, replicate 10 0] @ take R1 (cells b)
                 @ take (R2 - Suc R1) (drop (Suc R1) (cells b)) @ drop (Suc R2) (cells b) \<rparr>, 2)"
      using a by (intro two_full_rows wf) simp_all
    have nth: "cells (fst (clearLines b)) ! r =
                (if r < 2 then replicate 10 0
                 else if r < R1 + 2 then cells b ! (r - 2)
                 else if r \<le> R2 then cells b ! (r - 1)
                 else cells b ! r)" if "r < 20" for r
    proof -
      consider "r < 2" | q where "r = Suc (Suc q)" "q < R1"
        | q where "r = Suc (Suc q)" "R1 \<le> q" "q < R2 - 1" | q where "r = Suc (Suc q)" "R2 - 1 \<le> q"
      proof (cases "r < 2")
        case False
        then have "r = Suc (Suc (r - 2))" by simp
        then obtain q where "r = Suc (Suc q)" ..
        then show ?thesis using that by (cases "q < R1"; cases "q < R2 - 1") auto
      qed
      then show ?thesis
      proof cases
        case 1
        then show ?thesis by (auto simp: eq nth_Cons')
      next
        case 2
        then show ?thesis using R len by (simp add: eq nth_append)
      next
        case 3
        have lA: "length (take R1 (cells b)) = R1"
          and lB: "length (take (R2 - Suc R1) (drop (Suc R1) (cells b))) = R2 - Suc R1"
          using R len by simp_all
        have c: "\<not> q < R1" "q - R1 < R2 - Suc R1" "Suc (R1 + (q - R1)) = Suc q"
          "\<not> Suc (Suc q) < 2" "\<not> Suc (Suc q) < R1 + 2" "Suc (Suc q) \<le> R2"
          using 3 R by simp_all
        have "cells (fst (clearLines b)) ! r = cells b ! Suc q"
          using R len by (simp add: eq 3(1) nth_append lA lB c)
        then show ?thesis by (simp only: 3(1) c if_False if_True) simp
      next
        case 4
        have lA: "length (take R1 (cells b)) = R1"
          and lB: "length (take (R2 - Suc R1) (drop (Suc R1) (cells b))) = R2 - Suc R1"
          using R len by simp_all
        have c: "\<not> q < R1" "\<not> q - R1 < R2 - Suc R1" "Suc (R2 + (q - R1 - (R2 - Suc R1))) = Suc (Suc q)" "Suc (R2 + (Suc q - R2)) = Suc (Suc q)"
          "\<not> Suc (Suc q) < 2" "\<not> Suc (Suc q) < R1 + 2" "\<not> Suc (Suc q) \<le> R2"
          using 4 R by simp_all
        have "cells (fst (clearLines b)) ! r = cells b ! Suc (Suc q)"
          using R len that by (simp add: eq 4(1) nth_append lA lB c)
        then show ?thesis by (simp only: 4(1) c if_False if_True)
      qed
    qed
    have wf': "wf_board (fst (clearLines b))"
      unfolding wf_board_def list_all_length
    proof (intro conjI allI impI)
      show l: "length (cells (fst (clearLines b))) = nat BOARD_H"
        using R len by (simp add: eq BOARD_H_def)
      fix r assume "r < length (cells (fst (clearLines b)))"
      then have r: "r < 20" using l by (simp add: BOARD_H_def)
      then show "length (cells (fst (clearLines b)) ! r) = nat BOARD_W"
        using R rows by (simp add: nth BOARD_W_def)
    qed
    from eq wf' nth show "clearLines b =
            (b\<lparr> cells := [replicate 10 0, replicate 10 0] @ take R1 (cells b)
                 @ take (R2 - Suc R1) (drop (Suc R1) (cells b)) @ drop (Suc R2) (cells b) \<rparr>, 2)
          \<and> wf_board (fst (clearLines b))
          \<and> (\<forall>r<20. cells (fst (clearLines b)) ! r =
                (if r < 2 then replicate 10 0
                 else if r < R1 + 2 then cells b ! (r - 2)
                 else if r \<le> R2 then cells b ! (r - 1)
                 else cells b ! r))"
      by (intro conjI allI impI)
  qed
  show ?thesis
    by (intro conjI p1 p2 p3 p4 p5)
qed

theorem clearLines_correct_witness:
  "clearLines twoFullBoard =
     (\<lparr> cells = replicate 19 (replicate 10 0) @ [[1,0,0,0,0,0,0,0,0,2]] \<rparr>, 2)"
proof -
  have wf: "wf_board twoFullBoard"
    by (simp add: wf_board_def twoFullBoard_def BOARD_H_def BOARD_W_def list_all_iff)
  have f: "rowFull (cells twoFullBoard ! 18)" "rowFull (cells twoFullBoard ! 19)"
    by (simp_all add: twoFullBoard_def rowFull_def BOARD_W_def nth_append list_all_iff)
  have nf: "\<forall>r<20. r \<noteq> 18 \<and> r \<noteq> 19 \<longrightarrow> \<not> rowFull (cells twoFullBoard ! r)"
  proof (intro allI impI)
    fix r :: nat assume "r < 20" "r \<noteq> 18 \<and> r \<noteq> 19"
    then have "r < 17 \<or> r = 17" by arith
    then have "cells twoFullBoard ! r ! 1 = 0"
      by (auto simp: twoFullBoard_def nth_append)
    then show "\<not> rowFull (cells twoFullBoard ! r)"
      using rowFull_nth [of "cells twoFullBoard ! r" 1] by auto
  qed
  have "clearLines twoFullBoard =
            (twoFullBoard\<lparr> cells := [replicate 10 0, replicate 10 0] @ take 18 (cells twoFullBoard)
                 @ take (19 - Suc 18) (drop (Suc 18) (cells twoFullBoard)) @ drop (Suc 19) (cells twoFullBoard) \<rparr>, 2)"
    using clearLines_correct [OF wf, THEN conjunct2, THEN conjunct2, THEN conjunct2, THEN conjunct2,
        rule_format, of 18 19, THEN conjunct1] f nf by simp
  then show ?thesis
    by (simp add: twoFullBoard_def replicate_append_same flip: replicate_Suc)
qed

subsection \<open>Drop position\<close>


lemma collides_top_imp_all:
  assumes "collides b shape (- 4) left"
  shows "collides b shape r left"
proof -
  from assms obtain i j where ij: "i < 4" "j < 4" "shape ! i ! j \<noteq> 0"
    and c: "left + int j < 0 \<or> 10 \<le> left + int j \<or> 20 \<le> - 4 + int i \<or>
         (0 \<le> - 4 + int i \<and> cells b ! nat (- 4 + int i) ! nat (left + int j) \<noteq> 0)"
    unfolding collides_iff by blast
  from ij(1) c have "left + int j < 0 \<or> 10 \<le> left + int j" by auto
  with ij show ?thesis unfolding collides_iff by blast
qed

lemma collides_below:
  assumes "i < 4" "j < 4" "shape ! i ! j \<noteq> 0" "20 \<le> r + int i"
  shows "collides b shape r left"
  unfolding collides_iff using assms by blast

lemma dropLoop_Some:
  assumes "dropLoop b shape left t0 = Some t"
  shows "t0 \<le> t \<and> collides b shape (t + 1) left \<and> (t = t0 \<or> \<not> collides b shape t left)"
proof (rule dropLoop.raw_induct
    [where P = "\<lambda>b shape left t0 t.
        t0 \<le> t \<and> collides b shape (t + 1) left \<and> (t = t0 \<or> \<not> collides b shape t left)",
     OF _ assms])
  fix f b shape left topR t
  assume IH: "\<And>b shape left topR t. f b shape left topR = Some t \<Longrightarrow>
        topR \<le> t \<and> collides b shape (t + 1) left \<and> (t = topR \<or> \<not> collides b shape t left)"
    and eq: "(if \<not> collides b shape (topR + 1) left then f b shape left (topR + 1) else Some topR) = Some t"
  show "topR \<le> t \<and> collides b shape (t + 1) left \<and> (t = topR \<or> \<not> collides b shape t left)"
  proof (cases "collides b shape (topR + 1) left")
    case True
    with eq show ?thesis by simp
  next
    case False
    with eq have "f b shape left (topR + 1) = Some t" by simp
    from IH [OF this] False show ?thesis by auto
  qed
qed

lemma dropLoop_terminates:
  assumes "i < 4" "j < 4" "shape ! i ! j \<noteq> 0"
  shows "\<exists>t. dropLoop b shape left t0 = Some t"
proof (induction "nat (20 - t0)" arbitrary: t0)
  case 0
  then have "20 \<le> (t0 + 1) + int i" by simp
  then have "collides b shape (t0 + 1) left" using assms by (intro collides_below) 
  then show ?case by (subst dropLoop.simps) simp
next
  case (Suc n)
  show ?case
  proof (cases "collides b shape (t0 + 1) left")
    case True
    then show ?thesis by (subst dropLoop.simps) simp
  next
    case False
    from Suc(2) have "n = nat (20 - (t0 + 1))" by simp
    from Suc(1) [OF this] False show ?thesis by (subst dropLoop.simps) simp
  qed
qed

lemma dropLoop_empty_mask:
  assumes "\<forall>i<4. \<forall>j<4. shape ! i ! j = 0"
  shows "dropLoop b shape left t0 = None"
proof -
  have nc: "\<And>r. \<not> collides b shape r left"
    unfolding collides_iff using assms by blast
  have "(\<forall>r. \<not> collides b shape r left) \<longrightarrow> False" if "dropLoop b shape left t0 = Some t" for t
  proof (rule dropLoop.raw_induct
      [where P = "\<lambda>b shape left t0 t. (\<forall>r. \<not> collides b shape r left) \<longrightarrow> False", OF _ that])
    fix f b shape left topR t
    assume IH: "\<And>b shape left topR t. f b shape left topR = Some t \<Longrightarrow>
          (\<forall>r. \<not> collides b shape r left) \<longrightarrow> False"
      and eq: "(if \<not> collides b shape (topR + 1) left then f b shape left (topR + 1) else Some topR) = Some t"
    show "(\<forall>r. \<not> collides b shape r left) \<longrightarrow> False"
    proof
      assume n: "\<forall>r. \<not> collides b shape r left"
      with eq have "f b shape left (topR + 1) = Some t" by simp
      from IH [OF this] n show False by blast
    qed
  qed
  with nc have "dropLoop b shape left t0 \<noteq> Some t" for t by blast
  then show ?thesis by (cases "dropLoop b shape left t0") auto
qed

lemma dropPosition_row:
  assumes occ: "i < 4" "j < 4" "shape ! i ! j \<noteq> 0"
    and start: "\<not> collides b shape (- 4) left"
  shows "\<exists>t. dropPosition b shape left = Some t \<and> - 4 \<le> t \<and> t < 20 \<and> t \<noteq> INT_MIN
           \<and> \<not> collides b shape t left \<and> collides b shape (t + 1) left"
proof -
  from dropLoop_terminates [OF occ] obtain t where l: "dropLoop b shape left (- 4) = Some t"
    by blast
  from dropLoop_Some [OF l] have ge: "- 4 \<le> t" and below: "collides b shape (t + 1) left"
    and d: "t = - 4 \<or> \<not> collides b shape t left"
    by simp_all
  from d start have nc: "\<not> collides b shape t left" by auto
  have lt: "t < 20"
  proof (rule ccontr)
    assume "\<not> t < 20"
    then have "20 \<le> t + int i" by simp
    from collides_below [OF occ this] nc show False by simp
  qed
  from ge have "t \<noteq> INT_MIN" by (simp add: INT_MIN_def)
  moreover from l nc have "dropPosition b shape left = Some t" by (simp add: dropPosition_def)
  ultimately show ?thesis using ge lt nc below by blast
qed

text \<open>
  Claim C3. \<open>dropPosition\<close> is a function of the board, the shape and the column only.
  When it returns a row \<open>t\<close> (a value other than the sentinel \<open>INT_MIN\<close>), the shape does
  not collide at row \<open>t\<close> and collides at row \<open>t + 1\<close>. It returns the sentinel exactly
  when the first candidate row, \<open>-4\<close>, collides. And a row is in fact returned: for a
  shape with an occupied cell whose first candidate row does not collide, the scan ends
  and the result is a row \<open>t\<close> with \<open>-4 \<le> t < 20\<close>, not the sentinel, at which the shape
  does not collide while it collides at \<open>t + 1\<close>.
\<close>

theorem dropPosition_resting_row:
  "(\<forall>t1 t2. dropPosition b shape left = Some t1 \<and> dropPosition b shape left = Some t2 \<longrightarrow> t1 = t2)
   \<and> (\<forall>t. dropPosition b shape left = Some t \<and> t \<noteq> INT_MIN \<longrightarrow>
          \<not> collides b shape t left \<and> collides b shape (t + 1) left)
   \<and> (dropPosition b shape left = Some INT_MIN \<longleftrightarrow> collides b shape (- 4) left)
   \<and> ((\<exists>i<4. \<exists>j<4. shape ! i ! j \<noteq> 0) \<and> \<not> collides b shape (- 4) left \<longrightarrow>
        (\<exists>t. dropPosition b shape left = Some t \<and> - 4 \<le> t \<and> t < 20 \<and> t \<noteq> INT_MIN
           \<and> \<not> collides b shape t left \<and> collides b shape (t + 1) left))"
proof (intro conjI allI impI)
  fix t1 t2
  assume "dropPosition b shape left = Some t1 \<and> dropPosition b shape left = Some t2"
  then have "Some t1 = Some t2" by (elim conjE) (rule trans [OF sym])
  then show "t1 = t2" by (simp only: option.inject)
next
  fix t assume a: "dropPosition b shape left = Some t \<and> t \<noteq> INT_MIN"
  then obtain topR where l: "dropLoop b shape left (- 4) = Some topR"
    by (auto simp: dropPosition_def split: option.splits)
  with a have t: "t = topR" "\<not> collides b shape topR left"
    by (auto simp: dropPosition_def split: if_splits)
  from dropLoop_Some [OF l] t
  show "\<not> collides b shape t left" "collides b shape (t + 1) left" by simp_all
next
  show "dropPosition b shape left = Some INT_MIN \<longleftrightarrow> collides b shape (- 4) left"
  proof
    assume a: "dropPosition b shape left = Some INT_MIN"
    then obtain topR where l: "dropLoop b shape left (- 4) = Some topR"
      by (auto simp: dropPosition_def split: option.splits)
    from dropLoop_Some [OF l] have ge: "- 4 \<le> topR" and d: "topR = - 4 \<or> \<not> collides b shape topR left"
      by simp_all
    from ge have "topR \<noteq> INT_MIN" by (simp add: INT_MIN_def)
    with a l have "collides b shape topR left"
      by (auto simp: dropPosition_def split: if_splits)
    with d show "collides b shape (- 4) left" by auto
  next
    assume c: "collides b shape (- 4) left"
    then have "collides b shape (- 4 + 1) left" by (rule collides_top_imp_all)
    then have "dropLoop b shape left (- 4) = Some (- 4)"
      by (subst dropLoop.simps) simp
    with c show "dropPosition b shape left = Some INT_MIN"
      by (simp add: dropPosition_def)
  qed
next
  assume a: "(\<exists>i<4. \<exists>j<4. shape ! i ! j \<noteq> 0) \<and> \<not> collides b shape (- 4) left"
  then obtain i j where occ: "i < 4" "j < 4" "shape ! i ! j \<noteq> 0" by blast
  from a have start: "\<not> collides b shape (- 4) left" by simp
  show "\<exists>t. dropPosition b shape left = Some t \<and> - 4 \<le> t \<and> t < 20 \<and> t \<noteq> INT_MIN
           \<and> \<not> collides b shape t left \<and> collides b shape (t + 1) left"
    by (rule dropPosition_row [OF occ start])
qed

lemma dropPosition_emptyBoard_O0: "dropPosition emptyBoard O0 4 = Some 18"
  by code_simp

theorem dropPosition_resting_row_witness:
  "(\<exists>t. dropPosition towerBoard T0m 0 = Some t \<and> - 4 \<le> t \<and> t < 20 \<and> t \<noteq> INT_MIN
        \<and> \<not> collides towerBoard T0m t 0 \<and> collides towerBoard T0m (t + 1) 0)
   \<and> dropPosition emptyBoard O0 4 = Some 18
   \<and> \<not> collides emptyBoard O0 18 4 \<and> collides emptyBoard O0 (18 + 1) 4"
proof -
  have occ: "\<exists>i<4. \<exists>j<4. T0m ! i ! j \<noteq> 0"
    by (simp add: ex_less_4 T0m_def)
  have start: "\<not> collides towerBoard T0m (- 4) 0"
    unfolding collides_iff by auto
  note row = dropPosition_resting_row [of towerBoard T0m 0,
      THEN conjunct2, THEN conjunct2, THEN conjunct2, rule_format, OF conjI [OF occ start]]
  have "\<not> collides emptyBoard O0 18 4 \<and> collides emptyBoard O0 (18 + 1) 4"
    using dropPosition_resting_row [of emptyBoard O0 4, THEN conjunct2, THEN conjunct1,
        rule_format, of 18] dropPosition_emptyBoard_O0
    by (simp add: INT_MIN_def)
  with row dropPosition_emptyBoard_O0 show ?thesis by (intro conjI) simp_all
qed

text \<open>
  Claim C10. For a shape with at least one occupied cell, on any board and at any
  column, the scan of \<open>dropPosition\<close> ends: the function returns the sentinel or a row
  between \<open>-4\<close> and \<open>19\<close>. For the all-zero mask no row collides and the scan never ends.
\<close>

theorem dropPosition_terminates:
  "((\<exists>i<4. \<exists>j<4. shape ! i ! j \<noteq> 0) \<longrightarrow>
      (\<exists>r. dropPosition b shape left = Some r \<and> (r = INT_MIN \<or> (- 4 \<le> r \<and> r < 20))))
   \<and> ((\<forall>i<4. \<forall>j<4. shape ! i ! j = 0) \<longrightarrow> dropPosition b shape left = None)"
proof (intro conjI impI)
  assume "\<exists>i<4. \<exists>j<4. shape ! i ! j \<noteq> 0"
  then obtain i j where ij: "i < 4" "j < 4" "shape ! i ! j \<noteq> 0" by blast
  from dropLoop_terminates [OF ij] obtain t where l: "dropLoop b shape left (- 4) = Some t"
    by blast
  from dropLoop_Some [OF l] have ge: "- 4 \<le> t" by simp
  show "\<exists>r. dropPosition b shape left = Some r \<and> (r = INT_MIN \<or> (- 4 \<le> r \<and> r < 20))"
  proof (cases "collides b shape t left")
    case True
    with l show ?thesis by (simp add: dropPosition_def)
  next
    case False
    have "t < 20"
    proof (rule ccontr)
      assume "\<not> t < 20"
      then have "20 \<le> t + int i" by simp
      from collides_below [OF ij this] False show False by simp
    qed
    with l False ge show ?thesis by (simp add: dropPosition_def)
  qed
next
  assume "\<forall>i<4. \<forall>j<4. shape ! i ! j = 0"
  then show "dropPosition b shape left = None"
    by (simp add: dropPosition_def dropLoop_empty_mask)
qed

theorem dropPosition_terminates_witness:
  "(\<exists>r. dropPosition towerBoard T0m 3 = Some r \<and> (r = INT_MIN \<or> (- 4 \<le> r \<and> r < 20)))
   \<and> dropPosition towerBoard zeroMask 3 = None"
proof -
  have "\<exists>i<4. \<exists>j<4. T0m ! i ! j \<noteq> 0"
    by (simp add: ex_less_4 T0m_def)
  moreover have "\<forall>i<4. \<forall>j<4. zeroMask ! i ! j = 0"
    by (simp add: zeroMask_def)
  ultimately show ?thesis
    using dropPosition_terminates [of T0m towerBoard 3] dropPosition_terminates [of zeroMask towerBoard 3]
    by blast
qed

subsection \<open>Column height\<close>

lemma columnHeightFrom_zero:
  "(\<And>r. r \<in> set rs \<Longrightarrow> cells b ! r ! nat c = 0) \<Longrightarrow> columnHeightFrom b c rs = 0"
  by (induction rs) auto

lemma columnHeightFrom_first:
  "(\<And>r'. r' \<in> set xs \<Longrightarrow> cells b ! r' ! nat c = 0) \<Longrightarrow> cells b ! r ! nat c \<noteq> 0 \<Longrightarrow>
   columnHeightFrom b c (xs @ r # ys) = BOARD_H - int r"
  by (induction xs) auto

text \<open>
  Claim C5 (as the code has it). \<open>columnHeight b c\<close> is 0 when column \<open>c\<close> has no
  occupied cell; otherwise it is \<open>BOARD_H - r\<close> for the row \<open>r\<close> of the topmost occupied
  cell, that is the number of rows from that cell down to the bottom of the grid.
\<close>

theorem columnHeight_from_bottom:
  "((\<forall>r<20. cells b ! r ! nat c = 0) \<longrightarrow> columnHeight b c = 0)
   \<and> (\<forall>r<20. cells b ! r ! nat c \<noteq> 0 \<and> (\<forall>r'<r. cells b ! r' ! nat c = 0) \<longrightarrow>
          columnHeight b c = 20 - int r)"
proof (intro conjI allI impI)
  assume "\<forall>r<20. cells b ! r ! nat c = 0"
  then have "columnHeightFrom b c [0..<20] = 0"
    by (intro columnHeightFrom_zero) simp
  then show "columnHeight b c = 0"
    by (simp add: columnHeight_def BOARD_H_def)
next
  fix r :: nat
  assume r: "r < 20" and a: "cells b ! r ! nat c \<noteq> 0 \<and> (\<forall>r'<r. cells b ! r' ! nat c = 0)"
  have "[0..<20] = [0..<r] @ r # [Suc r..<20]"
  proof -
    have "[0..<20] = [0..<r] @ [r..<20]"
      using r upt_add_eq_append [of 0 r "20 - r"] by simp
    then show ?thesis using r by (simp add: upt_conv_Cons)
  qed
  moreover have "columnHeightFrom b c ([0..<r] @ r # [Suc r..<20]) = BOARD_H - int r"
    using a by (intro columnHeightFrom_first) simp_all
  ultimately show "columnHeight b c = 20 - int r"
    by (simp add: columnHeight_def BOARD_H_def)
qed

theorem columnHeight_from_bottom_witness:
  "columnHeight bottomCellBoard 0 = 20 - int 19 \<and> columnHeight bottomCellBoard 1 = 0"
proof -
  have z: "\<forall>r<20. cells bottomCellBoard ! r ! nat 1 = 0"
  proof (intro allI impI)
    fix r :: nat assume "r < 20"
    then have "r < 19 \<or> r = 19" by arith
    then show "cells bottomCellBoard ! r ! nat 1 = 0"
      by (auto simp: bottomCellBoard_def nth_append)
  qed
  have n: "cells bottomCellBoard ! 19 ! nat 0 \<noteq> 0 \<and> (\<forall>r'<19. cells bottomCellBoard ! r' ! nat 0 = 0)"
    by (simp add: bottomCellBoard_def nth_append)
  from columnHeight_from_bottom [of bottomCellBoard 1, THEN conjunct1] z
    columnHeight_from_bottom [of bottomCellBoard 0, THEN conjunct2, rule_format, of 19] n
  show ?thesis by simp
qed

text \<open>
  With a single occupied cell in the bottom row, 19 rows lie above it (the cell is the
  20th row counted from the top), while \<open>columnHeight\<close> is 1.
\<close>

theorem columnHeight_not_top_distance:
  "columnHeight bottomCellBoard 0 \<noteq> topDistance bottomCellBoard 0
   \<and> columnHeight bottomCellBoard 0 \<noteq> topDistance bottomCellBoard 0 + 1"
  by code_simp

subsection \<open>Rotation: index transform against rotate90\<close>

lemma length4E:
  assumes "length xs = 4"
  obtains a b c d where "xs = [a, b, c, d]"
proof -
  from assms obtain a b c d where "xs = [a, b, c, d]"
    by (auto simp: length_Suc_conv eval_nat_numeral)
  then show ?thesis by (rule that)
qed

lemma wf_shapeE:
  assumes "wf_shape m"
  obtains a0 a1 a2 a3 b0 b1 b2 b3 c0 c1 c2 c3 d0 d1 d2 d3 where
    "m = [[a0, a1, a2, a3], [b0, b1, b2, b3], [c0, c1, c2, c3], [d0, d1, d2, d3]]"
proof -
  from assms have "length m = 4" by (simp add: wf_shape_def)
  then obtain ra rb rc rd where m: "m = [ra, rb, rc, rd]" by (rule length4E)
  with assms have "length ra = 4" "length rb = 4" "length rc = 4" "length rd = 4"
    by (simp_all add: wf_shape_def)
  then show ?thesis
    using m by (elim length4E) (auto intro: that)
qed

lemma upt4: "[0..<4] = [0, 1, 2, 3]"
  by (simp add: upt_rec)

lemma cRem_small: "cRem 0 4 = 0" "cRem 1 4 = 1" "cRem 2 4 = 2" "cRem 3 4 = 3"
  by (simp_all add: cRem_def)

lemma transform_rotate:
  assumes "wf_shape m"
  shows "transformMask (concat m) 0 = m"
    and "transformMask (concat m) 1 = rotate90 m"
    and "transformMask (concat m) 2 = rotate90 (rotate90 m)"
    and "transformMask (concat m) 3 = rotate90 (rotate90 (rotate90 m))"
proof -
  from assms obtain a0 a1 a2 a3 b0 b1 b2 b3 c0 c1 c2 c3 d0 d1 d2 d3 where
    m: "m = [[a0, a1, a2, a3], [b0, b1, b2, b3], [c0, c1, c2, c3], [d0, d1, d2, d3]]"
    by (rule wf_shapeE)
  show "transformMask (concat m) 0 = m"
    by (simp add: m transformMask_def maskCell_def pieceIdx_def cRem_small upt4)
  show "transformMask (concat m) 1 = rotate90 m"
    by (simp add: m transformMask_def maskCell_def pieceIdx_def cRem_small upt4 rotate90_def)
  show "transformMask (concat m) 2 = rotate90 (rotate90 m)"
    by (simp add: m transformMask_def maskCell_def pieceIdx_def cRem_small upt4 rotate90_def)
  show "transformMask (concat m) 3 = rotate90 (rotate90 (rotate90 m))"
    by (simp add: m transformMask_def maskCell_def pieceIdx_def cRem_small upt4 rotate90_def)
qed

lemma transformMask_nth:
  "i < 4 \<Longrightarrow> j < 4 \<Longrightarrow> transformMask flat k ! i ! j = maskCell flat (int k) (int i) (int j)"
  by (simp add: transformMask_def)

lemma less4_cases: "k < 4 \<Longrightarrow> k = 0 \<or> k = 1 \<or> k = 2 \<or> k = (3::nat)"
  by arith

lemma transform_funpow:
  assumes "wf_shape m" "k < 4"
  shows "transformMask (concat m) k = (rotate90 ^^ k) m"
  using less4_cases [OF assms(2)] transform_rotate [OF assms(1)]
  by (auto simp: eval_nat_numeral)

lemma wf_base_masks: "wf_shape J0" "wf_shape L0" "wf_shape T0m"
  by (simp_all add: wf_shape_def J0_def L0_def T0m_def)

lemma classic_rows:
  "TETROMINO_CLASSIC ! 3 = concat J0" "TETROMINO_CLASSIC ! 4 = concat L0"
  "TETROMINO_CLASSIC ! 2 = concat T0m"
  by (simp_all add: TETROMINO_CLASSIC_def J0_def L0_def T0m_def)

lemma fourStates_nth: "k < 4 \<Longrightarrow> fourStates m ! k = (rotate90 ^^ k) m"
  by (drule less4_cases) (auto simp: fourStates_def eval_nat_numeral)

text \<open>
  Claim C9. For every 4x4 base mask and every rotation index \<open>k < 4\<close>, the mask that
  the index transform of \<open>pieceCell\<close> presents (case 1: \<open>original[3-j][i]\<close>, case 2:
  \<open>original[3-i][3-j]\<close>, case 3: \<open>original[j][3-i]\<close>) is the base mask rotated \<open>k\<close> times
  by \<open>rotate90\<close>, as a whole mask and cell by cell. For the three pieces that
  \<open>makeTetrominoes\<close> gives four states (J, L, T) the two catalogues agree at every
  rotation and cell.
\<close>

theorem pieceCell_transform_is_rotate90:
  assumes "wf_shape m" and "k < 4"
  shows "transformMask (concat m) k = (rotate90 ^^ k) m
    \<and> (\<forall>i<4. \<forall>j<4. maskCell (concat m) (int k) (int i) (int j) = ((rotate90 ^^ k) m) ! i ! j)
    \<and> (\<forall>i<4. \<forall>j<4. pieceCell 3 (int k) (int i) (int j) = states (makeTetrominoes ! 1) ! k ! i ! j)
    \<and> (\<forall>i<4. \<forall>j<4. pieceCell 4 (int k) (int i) (int j) = states (makeTetrominoes ! 2) ! k ! i ! j)
    \<and> (\<forall>i<4. \<forall>j<4. pieceCell 2 (int k) (int i) (int j) = states (makeTetrominoes ! 5) ! k ! i ! j)"
proof -
  have cell: "maskCell (concat m') (int k) (int i) (int j) = ((rotate90 ^^ k) m') ! i ! j"
    if "wf_shape m'" "i < 4" "j < 4" for m' i j
    using transformMask_nth [OF that(2,3), of "concat m'" k] transform_funpow [OF that(1) assms(2)]
    by simp
  have J: "\<forall>i<4. \<forall>j<4. pieceCell 3 (int k) (int i) (int j) = states (makeTetrominoes ! 1) ! k ! i ! j"
    using assms(2) by (simp add: pieceCell_def classic_rows cell wf_base_masks makeTetrominoes_def fourStates_nth)
  have L: "\<forall>i<4. \<forall>j<4. pieceCell 4 (int k) (int i) (int j) = states (makeTetrominoes ! 2) ! k ! i ! j"
    using assms(2) by (simp add: pieceCell_def classic_rows cell wf_base_masks makeTetrominoes_def fourStates_nth)
  have T: "\<forall>i<4. \<forall>j<4. pieceCell 2 (int k) (int i) (int j) = states (makeTetrominoes ! 5) ! k ! i ! j"
    using assms(2) by (simp add: pieceCell_def classic_rows cell wf_base_masks makeTetrominoes_def fourStates_nth)
  from transform_funpow [OF assms] cell [OF assms(1)] J L T show ?thesis by blast
qed

theorem pieceCell_transform_is_rotate90_witness:
  "transformMask (concat L0) 3 = (rotate90 ^^ 3) L0
   \<and> transformMask (concat L0) 3 = [[0,0,0,0], [1,1,0,0], [0,1,0,0], [0,1,0,0]]"
proof -
  have "wf_shape L0" by (simp add: wf_shape_def L0_def)
  from pieceCell_transform_is_rotate90 [OF this, of 3]
  have "transformMask (concat L0) 3 = (rotate90 ^^ 3) L0" by simp
  moreover have "(rotate90 ^^ 3) L0 = [[0,0,0,0], [1,1,0,0], [0,1,0,0], [0,1,0,0]]"
    by (simp add: eval_nat_numeral L0_def rotate90_def upt4)
  ultimately show ?thesis by simp
qed

subsection \<open>The 7-bag\<close>

lemma drawN_add:
  "drawN shuffle (m + n) B =
     (let (a, B') = drawN shuffle m B; (c, B'') = drawN shuffle n B' in (a @ c, B''))"
  by (induction m arbitrary: B) (simp_all add: Let_def split: prod.splits)

lemma bagNext_nonempty:
  "bagNext shuffle (B\<lparr> Bag.bag := xs @ [t] \<rparr>) = (t, B\<lparr> Bag.bag := xs \<rparr>)"
  by (simp add: bagNext_def)

lemma drawN_all:
  "drawN shuffle (length xs) (B\<lparr> Bag.bag := xs \<rparr>) = (rev xs, B\<lparr> Bag.bag := [] \<rparr>)"
proof (induction xs rule: rev_induct)
  case Nil
  then show ?case by simp
next
  case (snoc t xs)
  then show ?case by (simp add: bagNext_nonempty)
qed

lemma drawN_all':
  "length (Bag.bag B) = n \<Longrightarrow> drawN shuffle n B = (rev (Bag.bag B), B\<lparr> Bag.bag := [] \<rparr>)"
  using drawN_all [of shuffle "Bag.bag B" B] by simp

lemma refill_bag:
  assumes "\<forall>xs g. mset (fst (shuffle xs g)) = mset xs"
  shows "mset (Bag.bag (refill shuffle B)) = mset [0, 1, 2, 3, 4, 5, 6]"
  using assms [rule_format, of "[0, 1, 2, 3, 4, 5, 6]" "rng B"]
  by (simp add: refill_def case_prod_beta)

lemma full_length: "mset xs = mset [0, 1, 2, 3, 4, 5, 6::int] \<Longrightarrow> length xs = 7"
  by (drule arg_cong [where f = size]) simp

lemma drawN_empty_start:
  "Bag.bag B = [] \<Longrightarrow> Bag.bag (refill shuffle B) \<noteq> [] \<Longrightarrow>
   drawN shuffle (Suc n) B = drawN shuffle (Suc n) (refill shuffle B)"
  by (simp add: bagNext_def)

lemma seven_from_full:
  assumes "mset (Bag.bag B) = mset [0, 1, 2, 3, 4, 5, 6]"
  shows "mset (fst (drawN shuffle 7 B)) = mset [0, 1, 2, 3, 4, 5, 6]"
    and "Bag.bag (snd (drawN shuffle 7 B)) = []"
  using drawN_all' [OF full_length [OF assms], of shuffle] assms by simp_all

lemma seven_from_empty:
  assumes "\<forall>xs g. mset (fst (shuffle xs g)) = mset xs" "Bag.bag B = []"
  shows "mset (fst (drawN shuffle 7 B)) = mset [0, 1, 2, 3, 4, 5, 6]"
    and "Bag.bag (snd (drawN shuffle 7 B)) = []"
proof -
  have "length (Bag.bag (refill shuffle B)) = 7"
    using refill_bag [OF assms(1)] by (rule full_length)
  then have "Bag.bag (refill shuffle B) \<noteq> []" by auto
  then have e: "drawN shuffle 7 B = drawN shuffle 7 (refill shuffle B)"
    using drawN_empty_start [OF assms(2), of shuffle 6] by (simp add: eval_nat_numeral)
  show "mset (fst (drawN shuffle 7 B)) = mset [0, 1, 2, 3, 4, 5, 6]"
    and "Bag.bag (snd (drawN shuffle 7 B)) = []"
    unfolding e using seven_from_full [OF refill_bag [OF assms(1)]] by simp_all
qed

lemma seven_from_inv:
  assumes "\<forall>xs g. mset (fst (shuffle xs g)) = mset xs" "bagInv B"
  shows "mset (fst (drawN shuffle 7 B)) = mset [0, 1, 2, 3, 4, 5, 6]"
    and "Bag.bag (snd (drawN shuffle 7 B)) = []"
  using assms(2) seven_from_empty [OF assms(1)] seven_from_full
  unfolding bagInv_def by blast+

lemma after_blocks:
  assumes "\<forall>xs g. mset (fst (shuffle xs g)) = mset xs" "bagInv B"
  shows "bagInv (snd (drawN shuffle (7 * k) B))"
proof (induction k)
  case 0
  then show ?case using assms(2) by simp
next
  case (Suc k)
  have "7 * Suc k = 7 * k + 7" by simp
  then have "snd (drawN shuffle (7 * Suc k) B) = snd (drawN shuffle 7 (snd (drawN shuffle (7 * k) B)))"
    by (simp only: drawN_add) (simp add: Let_def case_prod_beta)
  then show ?case
    using seven_from_inv(2) [OF assms(1) Suc.IH] by (simp add: bagInv_def)
qed

lemma block_draws:
  "take 7 (drop (7 * k) (fst (drawN shuffle (7 * k + 7) B)))
     = fst (drawN shuffle 7 (snd (drawN shuffle (7 * k) B)))"
proof -
  have l: "length (fst (drawN shuffle n B')) = n" for n and B' :: "'a Bag"
    by (induction n arbitrary: B') (simp_all add: Let_def case_prod_beta)
  show ?thesis
    using l [of "7 * k" B] l [of 7 "snd (drawN shuffle (7 * k) B)"]
    by (simp only: drawN_add) (simp add: Let_def case_prod_beta)
qed

text \<open>
  Claim C6. Whatever permutation the shuffle produces (the only assumption on
  \<open>shuffle\<close> is that of \<^verbatim>\<open>std::shuffle\<close>: its result is a permutation of its input),
  the 7 draws that start with a refill (the bag is empty when the first of them is
  requested) deliver each id \<open>0..6\<close> exactly once and leave the bag empty, so that the
  next draw refills again. The same holds for the first 7 draws from a freshly
  constructed bag, and therefore for every block of draws \<open>7k .. 7k+6\<close> of a bag's life.
\<close>

theorem bag_seven_draws:
  assumes "\<forall>xs g. mset (fst (shuffle xs g)) = mset xs"
  shows "(Bag.bag B = [] \<longrightarrow>
            mset (fst (drawN shuffle 7 B)) = mset [0, 1, 2, 3, 4, 5, 6]
            \<and> (\<forall>t \<in> {0, 1, 2, 3, 4, 5, 6}. count_list (fst (drawN shuffle 7 B)) t = 1)
            \<and> Bag.bag (snd (drawN shuffle 7 B)) = [])
    \<and> (\<forall>k. mset (take 7 (drop (7 * k) (fst (drawN shuffle (7 * k + 7) (newBag shuffle seed)))))
              = mset [0, 1, 2, 3, 4, 5, 6]
          \<and> (\<forall>t \<in> {0, 1, 2, 3, 4, 5, 6}.
                count_list (take 7 (drop (7 * k) (fst (drawN shuffle (7 * k + 7) (newBag shuffle seed))))) t = 1)
          \<and> Bag.bag (snd (drawN shuffle (7 * k + 7) (newBag shuffle seed))) = [])"
proof -
  have cnt: "\<forall>t \<in> {0, 1, 2, 3, 4, 5, 6}. count_list xs t = 1"
    if "mset xs = mset [0, 1, 2, 3, 4, 5, 6::int]" for xs
  proof -
    have "count (mset xs) t = count (mset [0, 1, 2, 3, 4, 5, 6::int]) t" for t
      using that by simp
    then show ?thesis by (auto simp: count_mset)
  qed
  have inv0: "bagInv (newBag shuffle seed)"
    unfolding bagInv_def newBag_def using refill_bag [OF assms] by blast
  have p1: "Bag.bag B = [] \<longrightarrow>
            mset (fst (drawN shuffle 7 B)) = mset [0, 1, 2, 3, 4, 5, 6]
            \<and> (\<forall>t \<in> {0, 1, 2, 3, 4, 5, 6}. count_list (fst (drawN shuffle 7 B)) t = 1)
            \<and> Bag.bag (snd (drawN shuffle 7 B)) = []"
  proof (intro impI conjI)
    assume e: "Bag.bag B = []"
    show m: "mset (fst (drawN shuffle 7 B)) = mset [0, 1, 2, 3, 4, 5, 6]"
      by (rule seven_from_empty(1) [OF assms e])
    show "\<forall>t \<in> {0, 1, 2, 3, 4, 5, 6}. count_list (fst (drawN shuffle 7 B)) t = 1"
      by (rule cnt [OF m])
    show "Bag.bag (snd (drawN shuffle 7 B)) = []"
      by (rule seven_from_empty(2) [OF assms e])
  qed
  have p2: "mset (take 7 (drop (7 * k) (fst (drawN shuffle (7 * k + 7) (newBag shuffle seed)))))
              = mset [0, 1, 2, 3, 4, 5, 6]
          \<and> (\<forall>t \<in> {0, 1, 2, 3, 4, 5, 6}.
                count_list (take 7 (drop (7 * k) (fst (drawN shuffle (7 * k + 7) (newBag shuffle seed))))) t = 1)
          \<and> Bag.bag (snd (drawN shuffle (7 * k + 7) (newBag shuffle seed))) = []" for k
  proof -
    let ?Bk = "snd (drawN shuffle (7 * k) (newBag shuffle seed))"
    have inv: "bagInv ?Bk" by (rule after_blocks [OF assms inv0])
    have m: "mset (fst (drawN shuffle 7 ?Bk)) = mset [0, 1, 2, 3, 4, 5, 6]"
      and e: "Bag.bag (snd (drawN shuffle 7 ?Bk)) = []"
      using seven_from_inv [OF assms inv] by simp_all
    have s: "snd (drawN shuffle (7 * k + 7) (newBag shuffle seed)) = snd (drawN shuffle 7 ?Bk)"
      by (simp only: drawN_add) (simp add: Let_def case_prod_beta)
    show ?thesis
      unfolding block_draws s by (intro conjI m e cnt [OF m])
  qed
  show ?thesis by (rule conjI [OF p1 allI [OF p2]])
qed

lemma mset_rotate_eq: "mset (rotate n xs) = mset xs"
proof (induction n)
  case 0
  then show ?case by simp
next
  case (Suc n)
  have "mset (rotate1 ys) = mset ys" for ys :: "'a list" by (cases ys) simp_all
  with Suc show ?case by simp
qed

lemma rotShuffle_perm: "\<forall>xs g. mset (fst (rotShuffle xs g)) = mset xs"
  by (simp add: rotShuffle_def mset_rotate_eq)

theorem bag_seven_draws_witness:
  "mset (take 7 (drop (7 * 2) (fst (drawN rotShuffle (7 * 2 + 7) (newBag rotShuffle 2)))))
     = mset [0, 1, 2, 3, 4, 5, 6]
   \<and> Bag.bag (snd (drawN rotShuffle (7 * 2 + 7) (newBag rotShuffle 2))) = []"
proof -
  note t = bag_seven_draws [OF rotShuffle_perm, THEN conjunct2, THEN spec [of _ 2], of 2]
  from t [THEN conjunct1] t [THEN conjunct2, THEN conjunct2] show ?thesis by (rule conjI)
qed

subsection \<open>The placement search\<close>

lemma foldl_keepBetter:
  fixes init :: "('s::linorder) MoveDecision"
  shows "(foldl keepBetter init ds = init \<and> (\<forall>d\<in>set ds. MoveDecision.score d \<le> MoveDecision.score init))
     \<or> (\<exists>pre post. ds = pre @ foldl keepBetter init ds # post
           \<and> MoveDecision.score init < MoveDecision.score (foldl keepBetter init ds)
           \<and> (\<forall>d\<in>set pre. MoveDecision.score d < MoveDecision.score (foldl keepBetter init ds))
           \<and> (\<forall>d\<in>set post. MoveDecision.score d \<le> MoveDecision.score (foldl keepBetter init ds)))"
proof (induction ds arbitrary: init)
  case Nil
  then show ?case by simp
next
  case (Cons d ds)
  let ?r = "foldl keepBetter (keepBetter init d) ds"
  have r: "foldl keepBetter init (d # ds) = ?r" by simp
  show ?case
  proof (cases "MoveDecision.score d > MoveDecision.score init")
    case True
    then have k: "keepBetter init d = d" by (simp add: keepBetter_def)
    from Cons.IH [of d] show ?thesis
    proof (elim disjE conjE exE)
      assume a: "foldl keepBetter d ds = d" "\<forall>x\<in>set ds. MoveDecision.score x \<le> MoveDecision.score d"
      have "d # ds = [] @ foldl keepBetter init (d # ds) # ds" by (simp add: k a)
      moreover have "\<forall>x\<in>set ds. MoveDecision.score x \<le> MoveDecision.score (foldl keepBetter init (d # ds))"
        using a by (simp add: k)
      moreover have "MoveDecision.score init < MoveDecision.score (foldl keepBetter init (d # ds))"
        using True a by (simp add: k)
      ultimately show ?thesis by (intro disjI2 exI [of _ "[]"] exI [of _ ds]) simp
    next
      fix pre post
      assume a: "ds = pre @ foldl keepBetter d ds # post"
        "MoveDecision.score d < MoveDecision.score (foldl keepBetter d ds)"
        "\<forall>x\<in>set pre. MoveDecision.score x < MoveDecision.score (foldl keepBetter d ds)"
        "\<forall>x\<in>set post. MoveDecision.score x \<le> MoveDecision.score (foldl keepBetter d ds)"
      have "d # ds = (d # pre) @ foldl keepBetter init (d # ds) # post"
        using a(1) by (simp add: k)
      moreover have "\<forall>x\<in>set (d # pre). MoveDecision.score x < MoveDecision.score (foldl keepBetter init (d # ds))"
        using a(2,3) by (simp add: k)
      moreover have "\<forall>x\<in>set post. MoveDecision.score x \<le> MoveDecision.score (foldl keepBetter init (d # ds))"
        using a(4) by (simp add: k)
      moreover have "MoveDecision.score init < MoveDecision.score (foldl keepBetter init (d # ds))"
        using True a(2) by (simp add: k)
      ultimately show ?thesis by (intro disjI2 exI [of _ "d # pre"] exI [of _ post]) simp
    qed
  next
    case False
    then have k: "keepBetter init d = init" by (simp add: keepBetter_def)
    from Cons.IH [of init] show ?thesis
    proof (elim disjE conjE exE)
      assume a: "foldl keepBetter init ds = init" "\<forall>x\<in>set ds. MoveDecision.score x \<le> MoveDecision.score init"
      then show ?thesis using False by (intro disjI1) (simp add: k)
    next
      fix pre post
      assume a: "ds = pre @ foldl keepBetter init ds # post"
        "MoveDecision.score init < MoveDecision.score (foldl keepBetter init ds)"
        "\<forall>x\<in>set pre. MoveDecision.score x < MoveDecision.score (foldl keepBetter init ds)"
        "\<forall>x\<in>set post. MoveDecision.score x \<le> MoveDecision.score (foldl keepBetter init ds)"
      have "d # ds = (d # pre) @ foldl keepBetter init (d # ds) # post"
        using a(1) by (simp add: k)
      moreover have "\<forall>x\<in>set (d # pre). MoveDecision.score x < MoveDecision.score (foldl keepBetter init (d # ds))"
        using a(2,3) False by (auto simp: k)
      moreover have "\<forall>x\<in>set post. MoveDecision.score x \<le> MoveDecision.score (foldl keepBetter init (d # ds))"
        using a(4) by (simp add: k)
      moreover have "MoveDecision.score init < MoveDecision.score (foldl keepBetter init (d # ds))"
        using a(2) by (simp add: k)
      ultimately show ?thesis by (intro disjI2 exI [of _ "d # pre"] exI [of _ post]) simp
    qed
  qed
qed

lemma dropPosition_returns:
  assumes "i < 4" "j < 4" "shape ! i ! j \<noteq> 0"
  shows "\<exists>r. dropPosition b shape left = Some r"
proof -
  from dropLoop_terminates [OF assms] obtain t where "dropLoop b shape left (- 4) = Some t"
    by blast
  then show ?thesis by (simp add: dropPosition_def)
qed

lemma scanOffsets_fold:
  assumes "\<And>left. \<exists>r. dropPosition b shape left = Some r"
  shows "scanOffsets sc b shape cid rIdx ls best =
     Some (foldl keepBetter best
        (map (\<lambda>left. candidateAt sc b shape cid rIdx left (the (dropPosition b shape left)))
           (filter (\<lambda>left. dropPosition b shape left \<noteq> Some INT_MIN) ls)))"
proof (induction ls arbitrary: best)
  case Nil
  then show ?case by simp
next
  case (Cons left ls)
  from assms [of left] obtain r where r: "dropPosition b shape left = Some r" by blast
  show ?case by (simp add: r Cons.IH)
qed

lemma placeable_iff:
  assumes "\<exists>r. dropPosition b (states piece ! rIdx) left = Some r"
  shows "placeable b piece (rIdx, left) \<longleftrightarrow> dropPosition b (states piece ! rIdx) left \<noteq> Some INT_MIN"
  using assms by (auto simp: placeable_def)

lemma scanRotations_fold:
  assumes "\<And>rIdx left. rIdx \<in> set rs \<Longrightarrow> \<exists>r. dropPosition b (states piece ! rIdx) left = Some r"
  shows "scanRotations sc b piece rs best =
     Some (foldl keepBetter best
        (map (decisionOf sc b piece)
           (filter (placeable b piece)
              (concat (map (\<lambda>rIdx. map (\<lambda>left. (rIdx, left)) [- 4..BOARD_W]) rs)))))"
  using assms
proof (induction rs arbitrary: best)
  case Nil
  then show ?case by simp
next
  case (Cons rIdx rs)
  have t: "\<And>left. \<exists>r. dropPosition b (states piece ! rIdx) left = Some r"
    using Cons.prems by simp
  have f: "filter (placeable b piece) (map (\<lambda>left. (rIdx, left)) ls)
      = map (\<lambda>left. (rIdx, left)) (filter (\<lambda>left. dropPosition b (states piece ! rIdx) left \<noteq> Some INT_MIN) ls)"
    for ls
    by (induction ls) (simp_all add: placeable_iff [OF t])
  have IH: "scanRotations sc b piece rs best' =
     Some (foldl keepBetter best'
        (map (decisionOf sc b piece)
           (filter (placeable b piece)
              (concat (map (\<lambda>rIdx. map (\<lambda>left. (rIdx, left)) [- 4..BOARD_W]) rs)))))" for best'
    using Cons.prems by (intro Cons.IH) simp
  show ?case
    by (simp add: scanOffsets_fold [OF t] IH f decisionOf_def o_def)
qed

lemma findBestMoveWith_fold:
  assumes "\<forall>shape \<in> set (states (tets ! nat pieceType)). \<exists>i<4. \<exists>j<4. shape ! i ! j \<noteq> 0"
  shows "findBestMoveWith sc s0 b tets pieceType =
     Some (foldl keepBetter \<lparr> rotationIndex = 0, leftC = 0, score = s0, lines = 0 \<rparr>
        (map (decisionOf sc b (tets ! nat pieceType))
           (filter (placeable b (tets ! nat pieceType)) (allCandidates (tets ! nat pieceType)))))"
proof -
  have "\<exists>r. dropPosition b (states (tets ! nat pieceType) ! rIdx) left = Some r"
    if "rIdx \<in> set [0..<length (states (tets ! nat pieceType))]" for rIdx left
  proof -
    from that have "states (tets ! nat pieceType) ! rIdx \<in> set (states (tets ! nat pieceType))" by simp
    with assms obtain i j where "i < 4" "j < 4" "states (tets ! nat pieceType) ! rIdx ! i ! j \<noteq> 0"
      by blast
    then show ?thesis by (rule dropPosition_returns)
  qed
  then show ?thesis
    unfolding findBestMoveWith_def allCandidates_def Let_def
    by (rule scanRotations_fold)
qed

lemma columnHeightFrom_bounds:
  "\<forall>r \<in> set rs. r < 20 \<Longrightarrow>
   0 \<le> columnHeightFrom b c rs \<and> columnHeightFrom b c rs \<le> 20"
  by (induction rs) (auto simp: BOARD_H_def)

lemma columnHeight_bounds: "0 \<le> columnHeight b c \<and> columnHeight b c \<le> 20"
  unfolding columnHeight_def by (rule columnHeightFrom_bounds) (simp add: BOARD_H_def)

lemma foldl_bounds:
  fixes g :: "int \<Rightarrow> 'a \<Rightarrow> int"
  assumes "\<And>h c. h \<le> g h c \<and> g h c \<le> h + M"
  shows "a \<le> foldl g a cs \<and> foldl g a cs \<le> a + M * int (length cs)"
proof (induction cs arbitrary: a)
  case Nil
  then show ?case by simp
next
  case (Cons c cs)
  from Cons.IH [of "g a c"] assms [of a c] show ?case
    by (simp add: algebra_simps)
qed

lemma aggregateHeight_bounds: "0 \<le> aggregateHeight b \<and> aggregateHeight b \<le> 200"
  using foldl_bounds [of "\<lambda>s c. s + columnHeight b c" 20 0 "[0..BOARD_W - 1]"] columnHeight_bounds [of b]
  by (simp add: aggregateHeight_def BOARD_W_def)

lemma bumpiness_bounds: "0 \<le> bumpiness b \<and> bumpiness b \<le> 180"
proof -
  have "h \<le> h + \<bar>columnHeight b c - columnHeight b (c + 1)\<bar>
      \<and> h + \<bar>columnHeight b c - columnHeight b (c + 1)\<bar> \<le> h + 20" for h c
    using columnHeight_bounds [of b c] columnHeight_bounds [of b "c + 1"] by linarith
  from foldl_bounds [of "\<lambda>s c. s + \<bar>columnHeight b c - columnHeight b (c + 1)\<bar>" 20 0 "[0..BOARD_W - 1 - 1]", OF this]
  show ?thesis by (simp add: bumpiness_def BOARD_W_def)
qed

lemma holesRows_bounds:
  "h \<le> holesRows b c rs found h \<and> holesRows b c rs found h \<le> h + int (length rs)"
proof (induction rs arbitrary: found h)
  case Nil
  then show ?case by simp
next
  case (Cons r rs)
  from Cons.IH [of h True] Cons.IH [of "h + 1" found] Cons.IH [of h found]
  show ?case by auto
qed

lemma holes_bounds: "0 \<le> holes b \<and> holes b \<le> 200"
proof -
  have "h \<le> holesRows b c [0..<nat BOARD_H] False h
      \<and> holesRows b c [0..<nat BOARD_H] False h \<le> h + 20" for h c
    using holesRows_bounds [of h b c "[0..<nat BOARD_H]" False] by (simp add: BOARD_H_def)
  from foldl_bounds [of "\<lambda>h c. holesRows b c [0..<nat BOARD_H] False h" 20 0 "[0..BOARD_W - 1]", OF this]
  show ?thesis by (simp add: holes_def BOARD_W_def)
qed

lemma clearLoop_count: "cleared \<le> snd (clearLoop r b cleared)"
proof (induction r b cleared rule: clearLoop.induct)
  case (1 r b cleared)
  show ?case
  proof (cases "r \<ge> 0 \<and> nat r < length (cells b)")
    case False
    then show ?thesis by (subst clearLoop.simps) auto
  next
    case True
    show ?thesis
    proof (cases "rowFull (cells b ! nat r)")
      case full: True
      from "1.IH"(1) [OF True full] True full show ?thesis
        by (subst clearLoop.simps) simp
    next
      case nfull: False
      from "1.IH"(2) [OF True nfull] True nfull show ?thesis
        by (subst clearLoop.simps) simp
    qed
  qed
qed

lemma clearLines_count: "0 \<le> snd (clearLines b)"
  unfolding clearLines_def by (rule clearLoop_count)

lemma heuristicScore_lower:
  assumes "0 \<le> lns" "0 \<le> hls" "hls \<le> 200" "0 \<le> agg" "agg \<le> 200" "0 \<le> bmp" "bmp \<le> 180"
  shows "- 1000000000 < heuristicScore lns hls agg bmp"
proof -
  have "0 \<le> W_LINES * of_int lns" using assms(1) by (simp add: W_LINES_def)
  moreover have "W_HOLE * of_int hls \<ge> - 100" using assms(2,3) by (simp add: W_HOLE_def)
  moreover have "W_HEIGHT * of_int agg \<ge> - 200" using assms(4,5) by (simp add: W_HEIGHT_def)
  moreover have "W_BUMPY * of_int bmp \<ge> - 100" using assms(6,7) by (simp add: W_BUMPY_def)
  ultimately show ?thesis by (simp add: heuristicScore_def)
qed

lemma candidateAt_score:
  "- 1000000000 < MoveDecision.score (candidateAt heuristicScore b shape cid rIdx left topR)"
proof -
  obtain b3 lns where c: "clearLines (placePiece b shape topR left cid) = (b3, lns)"
    by (cases "clearLines (placePiece b shape topR left cid)")
  have "0 \<le> lns" using clearLines_count [of "placePiece b shape topR left cid"] by (simp add: c)
  then show ?thesis
    using holes_bounds [of b3] aggregateHeight_bounds [of b3] bumpiness_bounds [of b3]
    by (simp add: candidateAt_def c heuristicScore_lower)
qed

lemma decisionOf_score:
  "- 1000000000 < MoveDecision.score (decisionOf heuristicScore b piece c)"
  by (cases c) (simp add: decisionOf_def candidateAt_score)

lemma set_allCandidates:
  "set (allCandidates piece) = {(rIdx, left). rIdx < length (states piece) \<and> - 4 \<le> left \<and> left \<le> 10}"
proof -
  have "set (allCandidates piece)
      = (\<Union>rIdx \<in> {0..<length (states piece)}. Pair rIdx ` {- 4..BOARD_W})"
    unfolding allCandidates_def by (simp only: set_concat set_map set_upt set_upto image_image)
  then show ?thesis by (auto simp: BOARD_W_def)
qed

lemma decisionOf_formula:
  assumes "dropPosition b (states piece ! rIdx) left = Some topR"
    and "clearLines (placePiece b (states piece ! rIdx) topR left (colorId piece)) = (b3, lns)"
  shows "decisionOf heuristicScore b piece (rIdx, left) =
     \<lparr> rotationIndex = int rIdx, leftC = left,
       score = 0.760666 * of_int lns - 0.35663 * of_int (holes b3)
                 - 0.510066 * of_int (aggregateHeight b3) - 0.184483 * of_int (bumpiness b3),
       lines = lns \<rparr>"
  using assms
  by (simp add: decisionOf_def candidateAt_def heuristicScore_def W_LINES_def W_HOLE_def
      W_HEIGHT_def W_BUMPY_def)

lemma not_collides_top_at_0:
  "\<not> collides b shape (- 4) 0"
  unfolding collides_iff by auto

lemma placeable_candidate_exists:
  assumes "states piece \<noteq> []" and "i < 4" "j < 4" "states piece ! 0 ! i ! j \<noteq> 0"
  shows "(0, 0) \<in> set (filter (placeable b piece) (allCandidates piece))"
proof -
  from dropPosition_returns [OF assms(2-4)] obtain r where r: "dropPosition b (states piece ! 0) 0 = Some r"
    by blast
  from r obtain t where t: "dropLoop b (states piece ! 0) 0 (- 4) = Some t"
    and rt: "r = (if collides b (states piece ! 0) t 0 then INT_MIN else t)"
    by (auto simp: dropPosition_def split: option.splits if_splits)
  from dropLoop_Some [OF t] have "- 4 \<le> t" "t = - 4 \<or> \<not> collides b (states piece ! 0) t 0"
    by simp_all
  with not_collides_top_at_0 [of b "states piece ! 0"] have "\<not> collides b (states piece ! 0) t 0"
    by auto
  with rt \<open>- 4 \<le> t\<close> have "r \<noteq> INT_MIN" by (simp add: INT_MIN_def)
  with r have "placeable b piece (0, 0)" by (simp add: placeable_def)
  moreover have "(0, 0) \<in> set (allCandidates piece)"
    using assms(1) by (simp add: set_allCandidates)
  ultimately show ?thesis by simp
qed

lemma makeTetrominoes_masks_nonempty:
  assumes "p < 7"
  shows "\<forall>shape \<in> set (states (makeTetrominoes ! p)). \<exists>i<4. \<exists>j<4. shape ! i ! j \<noteq> 0"
proof -
  from assms consider "p = 0" | "p = 1" | "p = 2" | "p = 3" | "p = 4" | "p = 5" | "p = 6"
    by linarith
  then show ?thesis
    by cases
      (simp_all add: makeTetrominoes_def fourStates_def ex_less_4 rotate90_def upt4
        I0_def J0_def L0_def O0_def S0_def T0m_def Z0_def)
qed

text \<open>
  Claim C1. For a piece all of whose rotation masks have an occupied cell (so that
  every drop scan ends), on every board \<open>findBestMove\<close> returns a decision. The
  candidates are all pairs of a rotation state of the piece and an offset in \<open>-4..10\<close>,
  in rotation-major, offset-ascending order; a placeable candidate is scored by
  \<open>0.760666 * lines - 0.35663 * holes - 0.510066 * aggregateHeight - 0.184483 * bumpiness\<close>
  on the board obtained from a copy by placing the shape at its drop row and clearing
  lines. If no candidate is placeable the result is the initial decision with score
  \<open>-1e9\<close>, which is below \<open>-1e8\<close>. Otherwise the result is the decision of a placeable
  candidate whose score is strictly greater than the score of every earlier placeable
  candidate and at least the score of every later one: the first maximum.
\<close>

theorem findBestMove_first_maximum:
  assumes "\<forall>shape \<in> set (states (tets ! nat pieceType)). \<exists>i<4. \<exists>j<4. shape ! i ! j \<noteq> 0"
  shows "\<exists>best. findBestMove b tets pieceType = Some best
    \<and> set (allCandidates (tets ! nat pieceType))
        = {(rIdx, left). rIdx < length (states (tets ! nat pieceType)) \<and> - 4 \<le> left \<and> left \<le> 10}
    \<and> (\<forall>rIdx left topR b3 lns.
          dropPosition b (states (tets ! nat pieceType) ! rIdx) left = Some topR
          \<and> clearLines (placePiece b (states (tets ! nat pieceType) ! rIdx) topR left
                (colorId (tets ! nat pieceType))) = (b3, lns)
          \<longrightarrow> decisionOf heuristicScore b (tets ! nat pieceType) (rIdx, left) =
               \<lparr> rotationIndex = int rIdx, leftC = left,
                 score = 0.760666 * of_int lns - 0.35663 * of_int (holes b3)
                           - 0.510066 * of_int (aggregateHeight b3) - 0.184483 * of_int (bumpiness b3),
                 lines = lns \<rparr>)
    \<and> (filter (placeable b (tets ! nat pieceType)) (allCandidates (tets ! nat pieceType)) = []
          \<longrightarrow> best = \<lparr> rotationIndex = 0, leftC = 0, score = - 1000000000, lines = 0 \<rparr>
              \<and> MoveDecision.score best < - 100000000)
    \<and> (filter (placeable b (tets ! nat pieceType)) (allCandidates (tets ! nat pieceType)) \<noteq> []
          \<longrightarrow> (\<exists>pre c post.
                filter (placeable b (tets ! nat pieceType)) (allCandidates (tets ! nat pieceType))
                  = pre @ c # post
                \<and> best = decisionOf heuristicScore b (tets ! nat pieceType) c
                \<and> (\<forall>d \<in> set pre.
                      MoveDecision.score (decisionOf heuristicScore b (tets ! nat pieceType) d)
                        < MoveDecision.score best)
                \<and> (\<forall>d \<in> set post.
                      MoveDecision.score (decisionOf heuristicScore b (tets ! nat pieceType) d)
                        \<le> MoveDecision.score best)))"
proof -
  let ?piece = "tets ! nat pieceType"
  let ?cands = "filter (placeable b ?piece) (allCandidates ?piece)"
  let ?init = "\<lparr> rotationIndex = 0, leftC = 0, score = - 1000000000 :: real, lines = 0 \<rparr>"
  let ?ds = "map (decisionOf heuristicScore b ?piece) ?cands"
  let ?best = "foldl keepBetter ?init ?ds"
  have res: "findBestMove b tets pieceType = Some ?best"
    unfolding findBestMove_def by (rule findBestMoveWith_fold [OF assms])
  have formula: "\<forall>rIdx left topR b3 lns.
          dropPosition b (states ?piece ! rIdx) left = Some topR
          \<and> clearLines (placePiece b (states ?piece ! rIdx) topR left (colorId ?piece)) = (b3, lns)
          \<longrightarrow> decisionOf heuristicScore b ?piece (rIdx, left) =
               \<lparr> rotationIndex = int rIdx, leftC = left,
                 score = 0.760666 * of_int lns - 0.35663 * of_int (holes b3)
                           - 0.510066 * of_int (aggregateHeight b3) - 0.184483 * of_int (bumpiness b3),
                 lines = lns \<rparr>"
    by (intro allI impI, elim conjE) (rule decisionOf_formula)
  have none: "?cands = [] \<longrightarrow> ?best = ?init \<and> MoveDecision.score ?best < - 100000000"
    by simp
  have some: "\<exists>pre c post. ?cands = pre @ c # post
                \<and> ?best = decisionOf heuristicScore b ?piece c
                \<and> (\<forall>d \<in> set pre. MoveDecision.score (decisionOf heuristicScore b ?piece d)
                        < MoveDecision.score ?best)
                \<and> (\<forall>d \<in> set post. MoveDecision.score (decisionOf heuristicScore b ?piece d)
                        \<le> MoveDecision.score ?best)" if ne: "?cands \<noteq> []"
  proof -
    from ne obtain c0 where "c0 \<in> set ?cands" by (cases ?cands) auto
    then have "decisionOf heuristicScore b ?piece c0 \<in> set ?ds" by simp
    moreover have "MoveDecision.score ?init < MoveDecision.score (decisionOf heuristicScore b ?piece c0)"
      using decisionOf_score [of b ?piece c0] by simp
    ultimately have "\<not> (\<forall>d\<in>set ?ds. MoveDecision.score d \<le> MoveDecision.score ?init)"
      by (meson not_le)
    with foldl_keepBetter [of ?init ?ds] obtain pre' post' where
      sp: "?ds = pre' @ ?best # post'"
      and pre': "\<forall>d\<in>set pre'. MoveDecision.score d < MoveDecision.score ?best"
      and post': "\<forall>d\<in>set post'. MoveDecision.score d \<le> MoveDecision.score ?best"
      by blast
    from sp obtain pre rest where 1: "?cands = pre @ rest"
      and 2: "pre' = map (decisionOf heuristicScore b ?piece) pre"
      and 3: "?best # post' = map (decisionOf heuristicScore b ?piece) rest"
      by (auto simp: map_eq_append_conv)
    from 3 obtain c post where 4: "rest = c # post"
      and 5: "?best = decisionOf heuristicScore b ?piece c"
      and 6: "post' = map (decisionOf heuristicScore b ?piece) post"
      by (auto simp: Cons_eq_map_conv)
    have "?cands = pre @ c # post" using 1 4 by simp
    moreover have "\<forall>d \<in> set pre. MoveDecision.score (decisionOf heuristicScore b ?piece d)
                        < MoveDecision.score ?best"
      using pre' unfolding 2 by simp
    moreover have "\<forall>d \<in> set post. MoveDecision.score (decisionOf heuristicScore b ?piece d)
                        \<le> MoveDecision.score ?best"
      using post' unfolding 6 by simp
    ultimately show ?thesis using 5 by blast
  qed
  show ?thesis
    by (rule exI [of _ ?best]) (intro conjI res set_allCandidates formula none impI some)
qed

theorem findBestMove_first_maximum_witness:
  "(\<exists>best pre c post.
      findBestMove towerBoard makeTetrominoes 0 = Some best
      \<and> filter (placeable towerBoard (makeTetrominoes ! nat 0)) (allCandidates (makeTetrominoes ! nat 0))
          = pre @ c # post
      \<and> best = decisionOf heuristicScore towerBoard (makeTetrominoes ! nat 0) c)
   \<and> findBestMove towerBoard [\<lparr> states = [], colorId = 1 \<rparr>] 0
       = Some \<lparr> rotationIndex = 0, leftC = 0, score = - 1000000000, lines = 0 \<rparr>"
proof -
  have st: "states (makeTetrominoes ! 0) = [I0, rotate90 I0]"
    by (simp add: makeTetrominoes_def)
  have m: "\<forall>shape \<in> set (states (makeTetrominoes ! nat 0)). \<exists>i<4. \<exists>j<4. shape ! i ! j \<noteq> 0"
    by (rule makeTetrominoes_masks_nonempty) simp
  have "I0 ! 1 ! 0 \<noteq> 0" by (simp add: I0_def)
  then have "(0, 0) \<in> set (filter (placeable towerBoard (makeTetrominoes ! nat 0))
      (allCandidates (makeTetrominoes ! nat 0)))"
    by (intro placeable_candidate_exists [of _ 1 0]) (simp_all add: st)
  then have ne: "filter (placeable towerBoard (makeTetrominoes ! nat 0))
      (allCandidates (makeTetrominoes ! nat 0)) \<noteq> []"
    by (metis empty_iff empty_set)
  have e: "\<forall>shape \<in> set (states ([\<lparr> states = [], colorId = 1 \<rparr>] ! nat 0)). \<exists>i<4. \<exists>j<4. shape ! i ! j \<noteq> 0"
    by simp
  have none: "filter (placeable towerBoard ([\<lparr> states = [], colorId = 1 \<rparr>] ! nat 0))
      (allCandidates ([\<lparr> states = [], colorId = 1 \<rparr>] ! nat 0)) = []"
    by (simp add: allCandidates_def)
  from findBestMove_first_maximum [OF m, of towerBoard] ne
  have 1: "\<exists>best pre c post.
      findBestMove towerBoard makeTetrominoes 0 = Some best
      \<and> filter (placeable towerBoard (makeTetrominoes ! nat 0)) (allCandidates (makeTetrominoes ! nat 0))
          = pre @ c # post
      \<and> best = decisionOf heuristicScore towerBoard (makeTetrominoes ! nat 0) c"
    by (elim exE conjE) blast
  from findBestMove_first_maximum [OF e, of towerBoard] none
  have 2: "findBestMove towerBoard [\<lparr> states = [], colorId = 1 \<rparr>] 0
       = Some \<lparr> rotationIndex = 0, leftC = 0, score = - 1000000000, lines = 0 \<rparr>"
    by (elim exE conjE) simp
  from 1 2 show ?thesis by (rule conjI)
qed

subsection \<open>Rotation attempts and the AI tick\<close>

text \<open>
  Claim C7. A rotation attempt (\<open>d = 1\<close> clockwise, \<open>d = 3\<close> counter-clockwise) computes
  the new rotation and accepts it at the current position if that does not collide;
  otherwise one column to the left; otherwise one column to the right of the original
  position; if all three placements collide the game state is returned unchanged. In
  every case only the column and the rotation of the current piece can change.
\<close>

theorem tryRotate_wall_kick:
  "(\<not> collidesPiece g (x (cur g)) (y (cur g)) (type (cur g)) (cRem (rotation (cur g) + d) 4) \<longrightarrow>
      tryRotate d g = g\<lparr> cur := (cur g)\<lparr> rotation := cRem (rotation (cur g) + d) 4 \<rparr> \<rparr>)
   \<and> (collidesPiece g (x (cur g)) (y (cur g)) (type (cur g)) (cRem (rotation (cur g) + d) 4)
      \<and> \<not> collidesPiece g (x (cur g) - 1) (y (cur g)) (type (cur g)) (cRem (rotation (cur g) + d) 4) \<longrightarrow>
      tryRotate d g =
        g\<lparr> cur := (cur g)\<lparr> x := x (cur g) - 1, rotation := cRem (rotation (cur g) + d) 4 \<rparr> \<rparr>)
   \<and> (collidesPiece g (x (cur g)) (y (cur g)) (type (cur g)) (cRem (rotation (cur g) + d) 4)
      \<and> collidesPiece g (x (cur g) - 1) (y (cur g)) (type (cur g)) (cRem (rotation (cur g) + d) 4)
      \<and> \<not> collidesPiece g (x (cur g) + 1) (y (cur g)) (type (cur g)) (cRem (rotation (cur g) + d) 4) \<longrightarrow>
      tryRotate d g =
        g\<lparr> cur := (cur g)\<lparr> x := x (cur g) + 1, rotation := cRem (rotation (cur g) + d) 4 \<rparr> \<rparr>)
   \<and> (collidesPiece g (x (cur g)) (y (cur g)) (type (cur g)) (cRem (rotation (cur g) + d) 4)
      \<and> collidesPiece g (x (cur g) - 1) (y (cur g)) (type (cur g)) (cRem (rotation (cur g) + d) 4)
      \<and> collidesPiece g (x (cur g) + 1) (y (cur g)) (type (cur g)) (cRem (rotation (cur g) + d) 4) \<longrightarrow>
      tryRotate d g = g)
   \<and> (0 \<le> rotation (cur g) \<and> 0 \<le> d \<longrightarrow>
        cRem (rotation (cur g) + d) 4 = (rotation (cur g) + d) mod 4)
   \<and> (\<exists>px rot. tryRotate d g = g\<lparr> cur := (cur g)\<lparr> x := px, rotation := rot \<rparr> \<rparr>)"
proof (intro conjI impI)
  assume "\<not> collidesPiece g (x (cur g)) (y (cur g)) (type (cur g)) (cRem (rotation (cur g) + d) 4)"
  then show "tryRotate d g = g\<lparr> cur := (cur g)\<lparr> rotation := cRem (rotation (cur g) + d) 4 \<rparr> \<rparr>"
    by (simp add: tryRotate_def Let_def)
next
  assume "collidesPiece g (x (cur g)) (y (cur g)) (type (cur g)) (cRem (rotation (cur g) + d) 4)
      \<and> \<not> collidesPiece g (x (cur g) - 1) (y (cur g)) (type (cur g)) (cRem (rotation (cur g) + d) 4)"
  then show "tryRotate d g =
        g\<lparr> cur := (cur g)\<lparr> x := x (cur g) - 1, rotation := cRem (rotation (cur g) + d) 4 \<rparr> \<rparr>"
    by (simp add: tryRotate_def Let_def)
next
  assume "collidesPiece g (x (cur g)) (y (cur g)) (type (cur g)) (cRem (rotation (cur g) + d) 4)
      \<and> collidesPiece g (x (cur g) - 1) (y (cur g)) (type (cur g)) (cRem (rotation (cur g) + d) 4)
      \<and> \<not> collidesPiece g (x (cur g) + 1) (y (cur g)) (type (cur g)) (cRem (rotation (cur g) + d) 4)"
  then show "tryRotate d g =
        g\<lparr> cur := (cur g)\<lparr> x := x (cur g) + 1, rotation := cRem (rotation (cur g) + d) 4 \<rparr> \<rparr>"
    by (simp add: tryRotate_def Let_def)
next
  assume "collidesPiece g (x (cur g)) (y (cur g)) (type (cur g)) (cRem (rotation (cur g) + d) 4)
      \<and> collidesPiece g (x (cur g) - 1) (y (cur g)) (type (cur g)) (cRem (rotation (cur g) + d) 4)
      \<and> collidesPiece g (x (cur g) + 1) (y (cur g)) (type (cur g)) (cRem (rotation (cur g) + d) 4)"
  then show "tryRotate d g = g"
    by (simp add: tryRotate_def Let_def)
next
  assume "0 \<le> rotation (cur g) \<and> 0 \<le> d"
  then show "cRem (rotation (cur g) + d) 4 = (rotation (cur g) + d) mod 4"
    by (simp add: cRem_def sgn_if)
next
  let ?nr = "cRem (rotation (cur g) + d) 4"
  let ?c = "\<lambda>px. collidesPiece g px (y (cur g)) (type (cur g)) ?nr"
  have ex: "\<exists>px rot. G = g\<lparr> cur := (cur g)\<lparr> x := px, rotation := rot \<rparr> \<rparr>"
    if "G = g\<lparr> cur := (cur g)\<lparr> x := a, rotation := r \<rparr> \<rparr>" for G a r
    using that by blast
  consider "\<not> ?c (x (cur g))" | "?c (x (cur g))" "\<not> ?c (x (cur g) - 1)"
    | "?c (x (cur g))" "?c (x (cur g) - 1)" "\<not> ?c (x (cur g) + 1)"
    | "?c (x (cur g))" "?c (x (cur g) - 1)" "?c (x (cur g) + 1)"
    by blast
  then show "\<exists>px rot. tryRotate d g = g\<lparr> cur := (cur g)\<lparr> x := px, rotation := rot \<rparr> \<rparr>"
  proof cases
    case 1
    then have "tryRotate d g = g\<lparr> cur := (cur g)\<lparr> x := x (cur g), rotation := ?nr \<rparr> \<rparr>"
      by (simp add: tryRotate_def Let_def)
    then show ?thesis by (rule ex)
  next
    case 2
    then have "tryRotate d g = g\<lparr> cur := (cur g)\<lparr> x := x (cur g) - 1, rotation := ?nr \<rparr> \<rparr>"
      by (simp add: tryRotate_def Let_def)
    then show ?thesis by (rule ex)
  next
    case 3
    then have "tryRotate d g = g\<lparr> cur := (cur g)\<lparr> x := x (cur g) + 1, rotation := ?nr \<rparr> \<rparr>"
      by (simp add: tryRotate_def Let_def)
    then show ?thesis by (rule ex)
  next
    case 4
    then have "tryRotate d g = g\<lparr> cur := (cur g)\<lparr> x := x (cur g), rotation := rotation (cur g) \<rparr> \<rparr>"
      by (simp add: tryRotate_def Let_def)
    then show ?thesis by (rule ex)
  qed
qed

theorem tryRotate_wall_kick_witness:
  "tryRotate 1 wellGame = wellGame \<and> tryRotate 3 wellGame = wellGame"
proof -
  have c2: "collidesPiece wellGame 3 0 0 2" "collidesPiece wellGame (3 - 1) 0 0 2"
    "collidesPiece wellGame (3 + 1) 0 0 2"
    by code_simp+
  have c0: "collidesPiece wellGame 3 0 0 0" "collidesPiece wellGame (3 - 1) 0 0 0"
    "collidesPiece wellGame (3 + 1) 0 0 0"
    by code_simp+
  have p: "x (cur wellGame) = 3" "y (cur wellGame) = 0" "type (cur wellGame) = 0"
    "rotation (cur wellGame) = 1"
    by (simp_all add: wellGame_def baseGame_def)
  have r: "cRem (1 + 1) 4 = 2" "cRem (1 + 3) 4 = 0"
    by (simp_all add: cRem_def)
  note k = tryRotate_wall_kick [THEN conjunct2, THEN conjunct2, THEN conjunct2, THEN conjunct1, rule_format]
  have "tryRotate 1 wellGame = wellGame"
    by (rule k) (simp only: p r c2 simp_thms)
  moreover have "tryRotate 3 wellGame = wellGame"
    by (rule k) (simp only: p r c0 simp_thms)
  ultimately show ?thesis by (rule conjI)
qed

lemma spawnPiece_eq:
  "spawnPiece shuffle g =
     g\<lparr> bag := snd (bagNext shuffle (bag g)),
        cur := \<lparr> type = fst (bagNext shuffle (bag g)), x = 3, y = 0, rotation = 0 \<rparr>,
        gameOver := gameOver g
          \<or> collidesPieceFrom (board g) 3 0 (fst (bagNext shuffle (bag g))) 0 maskIndices \<rparr>"
  by (simp add: spawnPiece_def collidesPiece_def Let_def case_prod_beta BOARD_W_def)

lemma paused_spawnPiece: "paused (spawnPiece shuffle g) = paused g"
  by (simp add: spawnPiece_eq)

lemma updateAI_paused_indep:
  "updateAI shuffle dt (g\<lparr> paused := p \<rparr>) = map_option (\<lambda>g'. g'\<lparr> paused := p \<rparr>) (updateAI shuffle dt g)"
  by (simp add: updateAI_def Let_def case_prod_beta spawnPiece_eq split: option.splits)

lemma updateAI_keeps_paused:
  "updateAI shuffle dt g = Some g' \<Longrightarrow> paused g' = paused g"
  by (auto simp: updateAI_def Let_def case_prod_beta paused_spawnPiece split: option.splits if_splits)

text \<open>
  Claim C8 (as the code has it). \<open>updateAI\<close> returns at once, leaving the whole state
  unchanged for any \<open>dt\<close>, when \<open>gameOver\<close> is set. It never reads or writes the pause
  flag: its result on a state with the flag set to \<open>p\<close> is its result on the state without, with
  the flag set to \<open>p\<close>; in particular, while the game is not over the cooldown
  timer advances by \<open>dt\<close> whether or not the flag is set. In AI mode the flag is never
  set: a new game starts with it cleared, and the P key toggles it in manual mode only.
\<close>

theorem updateAI_pause_not_consulted:
  "(gameOver g \<longrightarrow> updateAI shuffle dt g = Some g)
   \<and> (\<not> gameOver g \<and> aiTimer g + dt < aiCooldown g \<longrightarrow>
        updateAI shuffle dt g = Some (g\<lparr> aiTimer := aiTimer g + dt \<rparr>))
   \<and> updateAI shuffle dt (g\<lparr> paused := p \<rparr>)
        = map_option (\<lambda>g'. g'\<lparr> paused := p \<rparr>) (updateAI shuffle dt g)
   \<and> (\<forall>g'. updateAI shuffle dt g = Some g' \<longrightarrow> paused g' = paused g)
   \<and> (mode g = AI \<longrightarrow> pauseKey keyP g = g
        \<and> playingFrameAI shuffle keyP dt g = updateAI shuffle dt g)
   \<and> paused (newGame shuffle seed gm) = False"
proof (intro conjI impI allI)
  assume "gameOver g"
  then show "updateAI shuffle dt g = Some g" by (simp add: updateAI_def)
next
  assume "\<not> gameOver g \<and> aiTimer g + dt < aiCooldown g"
  then show "updateAI shuffle dt g = Some (g\<lparr> aiTimer := aiTimer g + dt \<rparr>)"
    by (simp add: updateAI_def Let_def)
next
  show "updateAI shuffle dt (g\<lparr> paused := p \<rparr>)
        = map_option (\<lambda>g'. g'\<lparr> paused := p \<rparr>) (updateAI shuffle dt g)"
    by (rule updateAI_paused_indep)
next
  fix g' assume "updateAI shuffle dt g = Some g'"
  then show "paused g' = paused g" by (rule updateAI_keeps_paused)
next
  assume "mode g = AI"
  then show "pauseKey keyP g = g" "playingFrameAI shuffle keyP dt g = updateAI shuffle dt g"
    by (simp_all add: pauseKey_def playingFrameAI_def)
next
  show "paused (newGame shuffle seed gm) = False"
    by (simp add: newGame_def paused_spawnPiece)
qed

theorem updateAI_pause_not_consulted_witness:
  "updateAI rotShuffle 5 (baseGame\<lparr> gameOver := True \<rparr>) = Some (baseGame\<lparr> gameOver := True \<rparr>)
   \<and> updateAI rotShuffle (1 / 2) baseGame = Some (baseGame\<lparr> aiTimer := 0 + 1 / 2 \<rparr>)"
proof -
  note t = updateAI_pause_not_consulted [of _ rotShuffle]
  have "updateAI rotShuffle 5 (baseGame\<lparr> gameOver := True \<rparr>) = Some (baseGame\<lparr> gameOver := True \<rparr>)"
    by (rule t [THEN conjunct1, rule_format]) simp
  moreover have "updateAI rotShuffle (1 / 2) baseGame = Some (baseGame\<lparr> aiTimer := aiTimer baseGame + 1 / 2 \<rparr>)"
    by (rule t [THEN conjunct2, THEN conjunct1, rule_format]) (simp add: baseGame_def)
  moreover have "aiTimer baseGame = 0" by (simp add: baseGame_def)
  ultimately show ?thesis by simp
qed

text \<open>
  With the pause flag set, the game not over and the timer at 0, an AI tick with
  \<open>dt = 1\<close> (below the cooldown of 1.08) changes the state: the timer becomes 1.
\<close>

theorem updateAI_advances_while_paused:
  "paused pausedGame \<and> mode pausedGame = AI
   \<and> updateAI rotShuffle 1 pausedGame = Some (pausedGame\<lparr> aiTimer := 1 \<rparr>)
   \<and> updateAI rotShuffle 1 pausedGame \<noteq> Some pausedGame"
proof -
  have 1: "updateAI rotShuffle 1 pausedGame = Some (pausedGame\<lparr> aiTimer := 1 \<rparr>)"
    by (simp add: updateAI_def pausedGame_def baseGame_def Let_def)
  have "aiTimer (pausedGame\<lparr> aiTimer := 1 \<rparr>) \<noteq> aiTimer pausedGame"
    by (simp add: pausedGame_def baseGame_def)
  then have "pausedGame\<lparr> aiTimer := 1 \<rparr> \<noteq> pausedGame" by (metis)
  with 1 show ?thesis by (simp add: pausedGame_def baseGame_def)
qed

end
